theory Spec2Isabelle
  imports Main "HOL-Library.Word"
begin

section \<open>The dual-strip serial frame decoder of \<^verbatim>\<open>arduino/firmware/client.c\<close>\<close>

text \<open>
  The firmware polls a serial transport, groups the incoming bytes into RGB triplets,
  writes each triplet into one of two fixed-length pixel arrays and, once enough bytes
  for a whole frame have been counted, shows both arrays and answers with one byte.

  The embedding follows the source statement by statement. The global variables become
  the fields of a record that every function takes and returns. The two effects of
  \<^verbatim>\<open>loop\<close> on the outside world (\<^verbatim>\<open>FastLED.show()\<close> and
  \<^verbatim>\<open>Serial.write\<close>) are appended, in program order, to an event log kept in
  the same record. The counters are natural numbers; for the configuration of the source
  they never exceed 963 (see \<open>counter_bound_source_config\<close>), so no machine type of
  the source wraps around.
\<close>

subsection \<open>Configuration macros\<close>

type_synonym byte = "8 word"

text \<open>
  \<^verbatim>\<open>LED_COUNT_PER_STRIP\<close> is 150 in the source. The functions below take the strip
  length as their first argument \<open>cap\<close>, so that they can also be run on the short
  strips of a test bench; the macros that are computed from it take it too.
\<close>

definition LED_COUNT_PER_STRIP :: nat where
  "LED_COUNT_PER_STRIP = 150"

definition TOTAL_LED_COUNT :: "nat \<Rightarrow> nat" where
  "TOTAL_LED_COUNT cap = cap * 2"

definition DATA_BLOCK_SIZE :: nat where
  "DATA_BLOCK_SIZE = 64"

definition ACK_BYTE :: byte where
  "ACK_BYTE = 0xAA"

definition BYTES_PER_LED :: nat where
  "BYTES_PER_LED = 3"

definition NUMBER_OF_BYTES_TO_READ :: "nat \<Rightarrow> nat" where
  "NUMBER_OF_BYTES_TO_READ cap = TOTAL_LED_COUNT cap * BYTES_PER_LED"

subsection \<open>Program state\<close>

datatype CRGB = CRGB byte byte byte

datatype event =
    Serial_println string
  | FastLED_show "CRGB list" "CRGB list"
  | Serial_write byte

record state =
  leds1 :: "CRGB list"
  leds2 :: "CRGB list"
  ledBuffer :: "byte list"
  ledIndex :: nat
  receivedBlocks :: nat
  totalBytesRead :: nat
  trace :: "event list"

text \<open>
  \<^verbatim>\<open>setup\<close>: the globals have static storage, so both pixel arrays and the staging
  buffer start zeroed and the counters start at 0; the only output is the greeting line.
  (The two time stamps read from \<^verbatim>\<open>millis()\<close> are never used by \<^verbatim>\<open>loop\<close>
  and are left out.)
\<close>

definition setup_fw :: "nat \<Rightarrow> state" where
  "setup_fw cap =
     \<lparr> leds1 = replicate cap (CRGB 0 0 0),
       leds2 = replicate cap (CRGB 0 0 0),
       ledBuffer = replicate 3 0,
       ledIndex = 0,
       receivedBlocks = 0,
       totalBytesRead = 0,
       trace = [Serial_println ''Arduino listening for dual strip data...''] \<rparr>"

subsection \<open>The body of the \<^verbatim>\<open>for\<close> loop (lines 64 to 84)\<close>

text \<open>Lines 64 and 65: the byte goes into the staging buffer and the index advances.\<close>

definition store_byte :: "state \<Rightarrow> byte \<Rightarrow> state" where
  "store_byte s x =
     s\<lparr> ledBuffer := (ledBuffer s)[ledIndex s := x], ledIndex := ledIndex s + 1 \<rparr>"

text \<open>
  Lines 69 to 81: where a pixel position goes. The nested conditionals of the source are
  kept in their order; the result names the array and the index that the assignment uses.
\<close>

datatype target = Strip1 nat | Strip2 nat | Discarded

definition pixel_target :: "nat \<Rightarrow> nat \<Rightarrow> target" where
  "pixel_target cap ledPosition =
     (if ledPosition < TOTAL_LED_COUNT cap then
        (if ledPosition < cap then Strip1 ledPosition
         else Strip2 (ledPosition - cap))
      else Discarded)"

text \<open>Lines 68 to 81: the position is computed from the byte counter and the pixel is written.\<close>

definition write_pixel :: "nat \<Rightarrow> state \<Rightarrow> state" where
  "write_pixel cap s =
     (let ledPosition = totalBytesRead s div 3;
          px = CRGB (ledBuffer s ! 0) (ledBuffer s ! 1) (ledBuffer s ! 2)
      in case pixel_target cap ledPosition of
           Strip1 i \<Rightarrow> s\<lparr> leds1 := (leds1 s)[i := px] \<rparr>
         | Strip2 i \<Rightarrow> s\<lparr> leds2 := (leds2 s)[i := px] \<rparr>
         | Discarded \<Rightarrow> s)"

text \<open>Lines 66 to 83: a full staging buffer is handed over and emptied.\<close>

definition complete_triplet :: "nat \<Rightarrow> state \<Rightarrow> state" where
  "complete_triplet cap s =
     (if ledIndex s = 3 then (write_pixel cap s)\<lparr> ledIndex := 0 \<rparr> else s)"

text \<open>Lines 64 to 84: one pass through the body, ending with \<^verbatim>\<open>totalBytesRead++\<close>.\<close>

definition for_body :: "nat \<Rightarrow> state \<Rightarrow> byte \<Rightarrow> state" where
  "for_body cap s x =
     (let s1 = store_byte s x;
          s2 = complete_triplet cap s1
      in s2\<lparr> totalBytesRead := totalBytesRead s2 + 1 \<rparr>)"

text \<open>Lines 62 to 85: the body runs once for each byte of the chunk, in order.\<close>

definition for_loop :: "nat \<Rightarrow> state \<Rightarrow> byte list \<Rightarrow> state" where
  "for_loop cap s receivedBuffer = foldl (for_body cap) s receivedBuffer"

subsection \<open>The frame completion gate (lines 87 to 94)\<close>

definition FastLED_show :: "state \<Rightarrow> state" where
  "FastLED_show s = s\<lparr> trace := trace s @ [event.FastLED_show (leds1 s) (leds2 s)] \<rparr>"

definition Serial_write :: "byte \<Rightarrow> state \<Rightarrow> state" where
  "Serial_write v s = s\<lparr> trace := trace s @ [event.Serial_write v] \<rparr>"

definition reset_counters :: "state \<Rightarrow> state" where
  "reset_counters s = s\<lparr> receivedBlocks := 0, totalBytesRead := 0, ledIndex := 0 \<rparr>"

definition frame_gate :: "nat \<Rightarrow> state \<Rightarrow> state" where
  "frame_gate cap s =
     (if NUMBER_OF_BYTES_TO_READ cap \<le> totalBytesRead s
      then reset_counters (Serial_write ACK_BYTE (FastLED_show s))
      else s)"

subsection \<open>The \<^verbatim>\<open>while\<close> loop (lines 57 to 95)\<close>

text \<open>
  One iteration after \<^verbatim>\<open>Serial.readBytes\<close> has filled \<^verbatim>\<open>receivedBuffer\<close>:
  the \<^verbatim>\<open>for\<close> loop over the chunk, then the gate.
\<close>

definition process_chunk :: "nat \<Rightarrow> state \<Rightarrow> byte list \<Rightarrow> state" where
  "process_chunk cap s chunk = frame_gate cap (for_loop cap s chunk)"

text \<open>
  Lines 57 to 60 against the transport: \<open>rx\<close> is what the serial receive queue holds when
  \<^verbatim>\<open>Serial.available()\<close> is evaluated. An empty queue ends the loop with nothing
  done; otherwise at most \<^verbatim>\<open>DATA_BLOCK_SIZE\<close> bytes leave the queue and are processed.
\<close>

definition while_iteration :: "nat \<Rightarrow> state \<times> byte list \<Rightarrow> state \<times> byte list" where
  "while_iteration cap = (\<lambda>(s, rx).
     if 0 < length rx then
       (let bytesToRead = min (length rx) DATA_BLOCK_SIZE
        in (process_chunk cap s (take bytesToRead rx), drop bytesToRead rx))
     else (s, rx))"

text \<open>
  The firmware against a host: each element of \<open>arrivals\<close> is the (possibly empty) run
  of bytes that reaches the receive queue before the next evaluation of the loop
  condition.
\<close>

definition poll :: "nat \<Rightarrow> state \<times> byte list \<Rightarrow> byte list list \<Rightarrow> state \<times> byte list" where
  "poll cap = foldl (\<lambda>(s, rx) arrived. while_iteration cap (s, rx @ arrived))"

text \<open>The same seen from the decoder: the sequence of chunks that the reads delivered.\<close>

definition run :: "nat \<Rightarrow> state \<Rightarrow> byte list list \<Rightarrow> state" where
  "run cap s chunks = foldl (process_chunk cap) s chunks"

subsection \<open>Observations on runs\<close>

text \<open>The bytes written to the transport and the number of display calls, read off a log.\<close>

fun written :: "event list \<Rightarrow> byte list" where
  "written [] = []"
| "written (event.Serial_write v # tr) = v # written tr"
| "written (e # tr) = written tr"

fun displays :: "event list \<Rightarrow> nat" where
  "displays [] = 0"
| "displays (event.FastLED_show a b # tr) = Suc (displays tr)"
| "displays (e # tr) = displays tr"

text \<open>
  A log in which every written byte comes directly after a display call: the first
  argument tells whether the event just before the rest of the log was a display call.
\<close>

fun ack_follows_show :: "bool \<Rightarrow> event list \<Rightarrow> bool" where
  "ack_follows_show shown [] = True"
| "ack_follows_show shown (event.Serial_write v # tr) = (shown \<and> ack_follows_show False tr)"
| "ack_follows_show shown (event.FastLED_show a b # tr) = ack_follows_show True tr"
| "ack_follows_show shown (Serial_println l # tr) = ack_follows_show False tr"

text \<open>
  A sequence of chunks in which no chunk is empty and no chunk reaches past the end of
  the frame it starts in; \<open>n\<close> is the value of the byte counter before the first chunk
  and \<open>F\<close> the number of bytes of a frame.
\<close>

fun frame_aligned :: "nat \<Rightarrow> nat \<Rightarrow> byte list list \<Rightarrow> bool" where
  "frame_aligned F n [] = True"
| "frame_aligned F n (c # cs) =
     (c \<noteq> [] \<and> n + length c \<le> F \<and>
      frame_aligned F (if n + length c = F then 0 else n + length c) cs)"

text \<open>The same bytes delivered one at a time.\<close>

definition bytewise :: "byte list \<Rightarrow> byte list list" where
  "bytewise bs = map (\<lambda>b. [b]) bs"

text \<open>The pixel that the three bytes at offsets \<open>3k\<close>, \<open>3k+1\<close>, \<open>3k+2\<close> of a frame encode.\<close>

definition triplet :: "byte list \<Rightarrow> nat \<Rightarrow> CRGB" where
  "triplet bs k = CRGB (bs ! (3 * k)) (bs ! (3 * k + 1)) (bs ! (3 * k + 2))"

subsection \<open>Test inputs\<close>

text \<open>The frame of the scenario with two pixels per strip, and the same frame sent twice
  without waiting: delivered frame by frame, and delivered as 13 bytes followed by 11.\<close>

definition frameA :: "byte list" where
  "frameA = [255, 0, 0, 0, 255, 0, 0, 0, 255, 128, 128, 128]"

definition chunk13 :: "byte list" where
  "chunk13 = [255, 0, 0, 0, 255, 0, 0, 0, 255, 128, 128, 128, 255]"

definition chunk11 :: "byte list" where
  "chunk11 = [0, 0, 0, 255, 0, 0, 0, 255, 128, 128, 128]"

text \<open>
  Two frames for the configuration of the source, 900 bytes of 0 and then 900 bytes of 1,
  sent without waiting: as full reads of 64 bytes deliver them, and cut into blocks of
  60 bytes.
\<close>

definition blocks_two_frames :: "byte list list" where
  "blocks_two_frames =
     replicate 14 (replicate 64 0) @ [replicate 4 0 @ replicate 60 1]
     @ replicate 13 (replicate 64 1) @ [replicate 8 1]"

definition aligned_two_frames :: "byte list list" where
  "aligned_two_frames = replicate 15 (replicate 60 0) @ replicate 15 (replicate 60 1)"

section \<open>Basic facts\<close>


subsection \<open>One byte: the effect of the loop body on each field\<close>

lemma NUMBER_OF_BYTES_TO_READ_eq: "NUMBER_OF_BYTES_TO_READ cap = 6 * cap"
  by (simp add: NUMBER_OF_BYTES_TO_READ_def TOTAL_LED_COUNT_def BYTES_PER_LED_def)

lemma store_byte_fields:
  "ledIndex (store_byte s x) = ledIndex s + 1"
  "ledBuffer (store_byte s x) = (ledBuffer s)[ledIndex s := x]"
  "totalBytesRead (store_byte s x) = totalBytesRead s"
  "leds1 (store_byte s x) = leds1 s"
  "leds2 (store_byte s x) = leds2 s"
  "trace (store_byte s x) = trace s"
  "receivedBlocks (store_byte s x) = receivedBlocks s"
  by (simp_all add: store_byte_def)

lemma write_pixel_fields:
  "ledIndex (write_pixel cap s) = ledIndex s"
  "ledBuffer (write_pixel cap s) = ledBuffer s"
  "totalBytesRead (write_pixel cap s) = totalBytesRead s"
  "trace (write_pixel cap s) = trace s"
  "receivedBlocks (write_pixel cap s) = receivedBlocks s"
  by (simp_all add: write_pixel_def Let_def split: target.split)

lemma write_pixel_leds1:
  "leds1 (write_pixel cap s) =
     (case pixel_target cap (totalBytesRead s div 3) of
        Strip1 i \<Rightarrow> (leds1 s)[i := CRGB (ledBuffer s ! 0) (ledBuffer s ! 1) (ledBuffer s ! 2)]
      | Strip2 i \<Rightarrow> leds1 s
      | Discarded \<Rightarrow> leds1 s)"
  by (simp add: write_pixel_def Let_def split: target.split)

lemma write_pixel_leds2:
  "leds2 (write_pixel cap s) =
     (case pixel_target cap (totalBytesRead s div 3) of
        Strip1 i \<Rightarrow> leds2 s
      | Strip2 i \<Rightarrow> (leds2 s)[i := CRGB (ledBuffer s ! 0) (ledBuffer s ! 1) (ledBuffer s ! 2)]
      | Discarded \<Rightarrow> leds2 s)"
  by (simp add: write_pixel_def Let_def split: target.split)

lemma complete_triplet_fields:
  "ledIndex (complete_triplet cap s) = (if ledIndex s = 3 then 0 else ledIndex s)"
  "ledBuffer (complete_triplet cap s) = ledBuffer s"
  "totalBytesRead (complete_triplet cap s) = totalBytesRead s"
  "trace (complete_triplet cap s) = trace s"
  "receivedBlocks (complete_triplet cap s) = receivedBlocks s"
  "leds1 (complete_triplet cap s) = (if ledIndex s = 3 then leds1 (write_pixel cap s) else leds1 s)"
  "leds2 (complete_triplet cap s) = (if ledIndex s = 3 then leds2 (write_pixel cap s) else leds2 s)"
  by (simp_all add: complete_triplet_def write_pixel_fields)

lemma for_body_fields:
  "ledIndex (for_body cap s x) = (if ledIndex s = 2 then 0 else ledIndex s + 1)"
  "ledBuffer (for_body cap s x) = (ledBuffer s)[ledIndex s := x]"
  "totalBytesRead (for_body cap s x) = totalBytesRead s + 1"
  "trace (for_body cap s x) = trace s"
  "receivedBlocks (for_body cap s x) = receivedBlocks s"
  by (simp_all add: for_body_def Let_def complete_triplet_fields store_byte_fields)

lemma for_body_leds1:
  "leds1 (for_body cap s x) =
     (if ledIndex s = 2 then leds1 (write_pixel cap (store_byte s x)) else leds1 s)"
  by (simp add: for_body_def Let_def complete_triplet_fields store_byte_fields)

lemma for_body_leds2:
  "leds2 (for_body cap s x) =
     (if ledIndex s = 2 then leds2 (write_pixel cap (store_byte s x)) else leds2 s)"
  by (simp add: for_body_def Let_def complete_triplet_fields store_byte_fields)

lemma for_body_length:
  "length (leds1 (for_body cap s x)) = length (leds1 s)"
  "length (leds2 (for_body cap s x)) = length (leds2 s)"
  "length (ledBuffer (for_body cap s x)) = length (ledBuffer s)"
  by (simp_all add: for_body_leds1 for_body_leds2 for_body_fields write_pixel_leds1
        write_pixel_leds2 store_byte_fields split: target.split)

subsection \<open>A chunk: the effect of the \<^verbatim>\<open>for\<close> loop\<close>

lemma for_loop_Nil: "for_loop cap s [] = s"
  by (simp add: for_loop_def)

lemma for_loop_Cons: "for_loop cap s (x # xs) = for_loop cap (for_body cap s x) xs"
  by (simp add: for_loop_def)

lemma for_loop_append: "for_loop cap s (xs @ ys) = for_loop cap (for_loop cap s xs) ys"
  by (simp add: for_loop_def)

lemma for_loop_snoc: "for_loop cap s (xs @ [x]) = for_body cap (for_loop cap s xs) x"
  by (simp add: for_loop_def)

lemma for_loop_fields:
  "totalBytesRead (for_loop cap s xs) = totalBytesRead s + length xs"
  "trace (for_loop cap s xs) = trace s"
  "receivedBlocks (for_loop cap s xs) = receivedBlocks s"
  "length (leds1 (for_loop cap s xs)) = length (leds1 s)"
  "length (leds2 (for_loop cap s xs)) = length (leds2 s)"
  "length (ledBuffer (for_loop cap s xs)) = length (ledBuffer s)"
  by (induction xs arbitrary: s; simp add: for_loop_Nil for_loop_Cons for_body_fields for_body_length)+

lemma for_loop_ledIndex_mod:
  "ledIndex s = totalBytesRead s mod 3 \<Longrightarrow>
   ledIndex (for_loop cap s xs) = totalBytesRead (for_loop cap s xs) mod 3"
proof (induction xs arbitrary: s)
  case Nil
  then show ?case by (simp add: for_loop_Nil)
next
  case (Cons x xs)
  have "ledIndex (for_body cap s x) = totalBytesRead (for_body cap s x) mod 3"
    using Cons.prems by (simp add: for_body_fields) presburger
  then show ?case
    by (simp add: for_loop_Cons Cons.IH)
qed

lemma for_loop_ledIndex_less:
  "ledIndex s < 3 \<Longrightarrow> ledIndex (for_loop cap s xs) < 3"
  by (induction xs arbitrary: s) (simp_all add: for_loop_Nil for_loop_Cons for_body_fields)

subsection \<open>The gate\<close>

lemma frame_gate_fires:
  "NUMBER_OF_BYTES_TO_READ cap \<le> totalBytesRead s \<Longrightarrow>
   frame_gate cap s = reset_counters (Serial_write ACK_BYTE (FastLED_show s))"
  by (simp add: frame_gate_def)

lemma frame_gate_idle:
  "totalBytesRead s < NUMBER_OF_BYTES_TO_READ cap \<Longrightarrow> frame_gate cap s = s"
  by (simp add: frame_gate_def)

lemma frame_gate_fields:
  "leds1 (frame_gate cap s) = leds1 s"
  "leds2 (frame_gate cap s) = leds2 s"
  "ledBuffer (frame_gate cap s) = ledBuffer s"
  "totalBytesRead (frame_gate cap s) =
     (if NUMBER_OF_BYTES_TO_READ cap \<le> totalBytesRead s then 0 else totalBytesRead s)"
  "ledIndex (frame_gate cap s) =
     (if NUMBER_OF_BYTES_TO_READ cap \<le> totalBytesRead s then 0 else ledIndex s)"
  "trace (frame_gate cap s) =
     (if NUMBER_OF_BYTES_TO_READ cap \<le> totalBytesRead s
      then trace s @ [event.FastLED_show (leds1 s) (leds2 s), event.Serial_write ACK_BYTE]
      else trace s)"
  by (simp_all add: frame_gate_def reset_counters_def Serial_write_def FastLED_show_def)

subsection \<open>Sequences of chunks\<close>

lemma run_Nil: "run cap s [] = s"
  by (simp add: run_def)

lemma run_Cons: "run cap s (c # cs) = run cap (process_chunk cap s c) cs"
  by (simp add: run_def)

lemma run_append: "run cap s (cs @ ds) = run cap (run cap s cs) ds"
  by (simp add: run_def)

lemma run_snoc: "run cap s (cs @ [c]) = process_chunk cap (run cap s cs) c"
  by (simp add: run_def)

lemma process_chunk_fields:
  "leds1 (process_chunk cap s c) = leds1 (for_loop cap s c)"
  "leds2 (process_chunk cap s c) = leds2 (for_loop cap s c)"
  "ledBuffer (process_chunk cap s c) = ledBuffer (for_loop cap s c)"
  "totalBytesRead (process_chunk cap s c) =
     (if NUMBER_OF_BYTES_TO_READ cap \<le> totalBytesRead s + length c then 0
      else totalBytesRead s + length c)"
  "trace (process_chunk cap s c) =
     (if NUMBER_OF_BYTES_TO_READ cap \<le> totalBytesRead s + length c
      then trace s @ [event.FastLED_show (leds1 (for_loop cap s c)) (leds2 (for_loop cap s c)),
                      event.Serial_write ACK_BYTE]
      else trace s)"
  by (simp_all add: process_chunk_def frame_gate_fields for_loop_fields)

lemma process_chunk_within:
  "totalBytesRead s + length c < NUMBER_OF_BYTES_TO_READ cap \<Longrightarrow>
   process_chunk cap s c = for_loop cap s c"
  by (simp add: process_chunk_def frame_gate_idle for_loop_fields)

text \<open>A chunk that stays inside its frame can be delivered byte by byte instead.\<close>

lemma run_bytewise_chunk:
  "c \<noteq> [] \<Longrightarrow> totalBytesRead s + length c \<le> NUMBER_OF_BYTES_TO_READ cap \<Longrightarrow>
   run cap s (bytewise c) = process_chunk cap s c"
proof (induction c arbitrary: s)
  case Nil
  then show ?case by simp
next
  case (Cons x xs)
  show ?case
  proof (cases xs)
    case Nil
    then show ?thesis by (simp add: bytewise_def run_Cons run_Nil)
  next
    case (Cons y ys)
    have inside: "totalBytesRead s + length [x] < NUMBER_OF_BYTES_TO_READ cap"
      using Cons.prems(2) Cons by simp
    have first: "process_chunk cap s [x] = for_body cap s x"
      using process_chunk_within [OF inside] by (simp add: for_loop_Cons for_loop_Nil)
    have rest: "run cap (for_body cap s x) (bytewise xs) = process_chunk cap (for_body cap s x) xs"
      using Cons.prems(2) Cons by (intro Cons.IH) (simp_all add: for_body_fields)
    show ?thesis
      using first rest
      by (simp add: bytewise_def run_Cons process_chunk_def for_loop_Cons)
  qed
qed

lemma bytewise_append: "bytewise (xs @ ys) = bytewise xs @ bytewise ys"
  by (simp add: bytewise_def)

lemma run_aligned_bytewise:
  "frame_aligned (NUMBER_OF_BYTES_TO_READ cap) (totalBytesRead s) cs \<Longrightarrow>
   run cap s cs = run cap s (bytewise (concat cs))"
proof (induction cs arbitrary: s)
  case Nil
  then show ?case by (simp add: bytewise_def)
next
  case (Cons c cs)
  let ?F = "NUMBER_OF_BYTES_TO_READ cap"
  from Cons.prems have ne: "c \<noteq> []" and fit: "totalBytesRead s + length c \<le> ?F"
    and rest: "frame_aligned ?F (if totalBytesRead s + length c = ?F then 0
                                 else totalBytesRead s + length c) cs"
    by simp_all
  have cnt: "totalBytesRead (process_chunk cap s c) =
      (if totalBytesRead s + length c = ?F then 0 else totalBytesRead s + length c)"
    using fit by (simp add: process_chunk_fields)
  have "run cap (process_chunk cap s c) cs = run cap (process_chunk cap s c) (bytewise (concat cs))"
    using rest by (intro Cons.IH) (simp only: cnt)
  then show ?case
    by (simp add: run_Cons bytewise_append run_append run_bytewise_chunk [OF ne fit])
qed

subsection \<open>What a log shows\<close>

lemma written_append: "written (tr @ tr') = written tr @ written tr'"
  by (induction tr rule: written.induct) simp_all

lemma displays_append: "displays (tr @ tr') = displays tr + displays tr'"
  by (induction tr rule: displays.induct) simp_all

lemma ack_follows_show_gate:
  "ack_follows_show shown (tr @ [event.FastLED_show a b, event.Serial_write v]) =
   ack_follows_show shown tr"
  by (induction shown tr rule: ack_follows_show.induct) simp_all

lemma process_chunk_written:
  "written (trace (process_chunk cap s c)) =
     (if NUMBER_OF_BYTES_TO_READ cap \<le> totalBytesRead s + length c
      then written (trace s) @ [ACK_BYTE] else written (trace s))"
  by (simp add: process_chunk_fields written_append)

lemma process_chunk_displays:
  "displays (trace (process_chunk cap s c)) =
     (if NUMBER_OF_BYTES_TO_READ cap \<le> totalBytesRead s + length c
      then Suc (displays (trace s)) else displays (trace s))"
  by (simp add: process_chunk_fields displays_append)

lemma process_chunk_ack_follows_show:
  "ack_follows_show shown (trace (process_chunk cap s c)) = ack_follows_show shown (trace s)"
  by (simp add: process_chunk_fields ack_follows_show_gate)

lemma run_ack_follows_show:
  "ack_follows_show shown (trace (run cap s cs)) = ack_follows_show shown (trace s)"
  by (induction cs arbitrary: s) (simp_all add: run_Nil run_Cons process_chunk_ack_follows_show)

lemma run_written_displays:
  "written (trace (run cap s cs)) =
     written (trace s) @ replicate (displays (trace (run cap s cs)) - displays (trace s)) ACK_BYTE
   \<and> displays (trace s) \<le> displays (trace (run cap s cs))"
proof (induction cs rule: rev_induct)
  case Nil
  then show ?case by (simp add: run_Nil)
next
  case (snoc c cs)
  then show ?case
    by (simp add: run_snoc process_chunk_written process_chunk_displays Suc_diff_le
        replicate_append_same)
qed

text \<open>No answer is sent before a whole frame of bytes has been counted for it.\<close>

lemma run_never_early:
  "NUMBER_OF_BYTES_TO_READ cap * displays (trace (run cap s cs)) + totalBytesRead (run cap s cs)
   \<le> NUMBER_OF_BYTES_TO_READ cap * displays (trace s) + totalBytesRead s + length (concat cs)"
proof (induction cs arbitrary: s)
  case Nil
  then show ?case by (simp add: run_Nil)
next
  case (Cons c cs)
  let ?F = "NUMBER_OF_BYTES_TO_READ cap"
  let ?s' = "process_chunk cap s c"
  have step: "?F * displays (trace ?s') + totalBytesRead ?s'
              \<le> ?F * displays (trace s) + totalBytesRead s + length c"
    by (simp add: process_chunk_displays process_chunk_fields(4))
  have "?F * displays (trace (run cap ?s' cs)) + totalBytesRead (run cap ?s' cs)
        \<le> ?F * displays (trace ?s') + totalBytesRead ?s' + length (concat cs)"
    by (rule Cons.IH)
  with step show ?case
    by (simp add: run_Cons)
qed

text \<open>With frame-aligned chunks the gate keeps exact count of the frames.\<close>

lemma run_aligned_count:
  "frame_aligned (NUMBER_OF_BYTES_TO_READ cap) (totalBytesRead s) cs \<Longrightarrow>
   totalBytesRead s < NUMBER_OF_BYTES_TO_READ cap \<Longrightarrow>
   displays (trace (run cap s cs)) =
     displays (trace s) + (totalBytesRead s + length (concat cs)) div NUMBER_OF_BYTES_TO_READ cap
   \<and> totalBytesRead (run cap s cs) =
     (totalBytesRead s + length (concat cs)) mod NUMBER_OF_BYTES_TO_READ cap"
proof (induction cs arbitrary: s)
  case Nil
  then show ?case by (simp add: run_Nil)
next
  case (Cons c cs)
  let ?F = "NUMBER_OF_BYTES_TO_READ cap"
  let ?n = "totalBytesRead s"
  let ?s' = "process_chunk cap s c"
  from Cons.prems have fit: "?n + length c \<le> ?F" and pos: "0 < ?F"
    and rest: "frame_aligned ?F (if ?n + length c = ?F then 0 else ?n + length c) cs"
    by simp_all
  have cnt: "totalBytesRead ?s' = (if ?n + length c = ?F then 0 else ?n + length c)"
    using fit by (simp add: process_chunk_fields)
  have less: "totalBytesRead ?s' < ?F"
    using fit pos by (simp add: cnt)
  have IH: "displays (trace (run cap ?s' cs)) =
              displays (trace ?s') + (totalBytesRead ?s' + length (concat cs)) div ?F
            \<and> totalBytesRead (run cap ?s' cs) = (totalBytesRead ?s' + length (concat cs)) mod ?F"
    using rest less by (intro Cons.IH) (simp_all only: cnt)
  show ?case
  proof (cases "?n + length c = ?F")
    case True
    then have "displays (trace ?s') = Suc (displays (trace s))" and "totalBytesRead ?s' = 0"
      by (simp_all add: process_chunk_displays cnt)
    moreover have "(?n + (length c + length (concat cs))) div ?F = Suc (length (concat cs) div ?F)"
      and "(?n + (length c + length (concat cs))) mod ?F = length (concat cs) mod ?F"
      using True pos by (simp_all add: add.assoc [symmetric] div_add_self1)
    ultimately show ?thesis
      using IH by (simp add: run_Cons)
  next
    case False
    then have "displays (trace ?s') = displays (trace s)" and "totalBytesRead ?s' = ?n + length c"
      using fit by (simp_all add: process_chunk_displays cnt)
    then show ?thesis
      using IH by (simp add: run_Cons add.assoc)
  qed
qed

lemma frame_aligned_take:
  "frame_aligned F n cs \<Longrightarrow> frame_aligned F n (take k cs)"
proof (induction cs arbitrary: n k)
  case Nil
  then show ?case by simp
next
  case (Cons c cs)
  then show ?case by (cases k) simp_all
qed

lemma frame_aligned_one_frame:
  "[] \<notin> set cs \<Longrightarrow> n + length (concat cs) \<le> F \<Longrightarrow> frame_aligned F n cs"
proof (induction cs arbitrary: n)
  case Nil
  then show ?case by simp
next
  case (Cons c cs)
  have "frame_aligned F (if n + length c = F then 0 else n + length c) cs"
    using Cons.prems by (intro Cons.IH) auto
  with Cons.prems show ?case by auto
qed

lemma frame_aligned_no_frame:
  "frame_aligned 0 n cs \<Longrightarrow> cs = []"
  by (cases cs) simp_all

lemma setup_fw_fields:
  "totalBytesRead (setup_fw cap) = 0"
  "ledIndex (setup_fw cap) = 0"
  "length (leds1 (setup_fw cap)) = cap"
  "length (leds2 (setup_fw cap)) = cap"
  "length (ledBuffer (setup_fw cap)) = 3"
  "written (trace (setup_fw cap)) = []"
  "displays (trace (setup_fw cap)) = 0"
  "ack_follows_show shown (trace (setup_fw cap))"
  by (simp_all add: setup_fw_def)

lemma run_setup_written_length:
  "length (written (trace (run cap (setup_fw cap) cs))) = displays (trace (run cap (setup_fw cap) cs))"
  using run_written_displays [of cap "setup_fw cap" cs]
  by (simp add: setup_fw_fields)

section \<open>Chunk boundaries\<close>

text \<open>
  C1. As the claim states it, the strips would not depend on where the chunk boundaries
  fall. The gate is only looked at after a whole chunk, so a chunk that reaches past the
  end of a frame loses its surplus bytes. What holds: two ways of cutting the same bytes
  into non-empty chunks, neither with a chunk that reaches past the end of a frame, lead
  to the same state: the same strips, counters and log of display calls and answers.
\<close>

theorem chunk_invariance_frame_aligned:
  assumes "frame_aligned (NUMBER_OF_BYTES_TO_READ cap) (totalBytesRead s) cs1"
    and "frame_aligned (NUMBER_OF_BYTES_TO_READ cap) (totalBytesRead s) cs2"
    and "concat cs1 = concat cs2"
  shows "run cap s cs1 = run cap s cs2"
proof -
  have "run cap s cs1 = run cap s (bytewise (concat cs1))"
    using assms(1) by (rule run_aligned_bytewise)
  also have "\<dots> = run cap s (bytewise (concat cs2))"
    by (simp only: assms(3))
  also have "\<dots> = run cap s cs2"
    using assms(2) by (rule run_aligned_bytewise [symmetric])
  finally show ?thesis .
qed

theorem chunk_invariance_frame_aligned_witness:
  "frame_aligned (NUMBER_OF_BYTES_TO_READ 2) (totalBytesRead (setup_fw 2)) [frameA, frameA]
   \<and> frame_aligned (NUMBER_OF_BYTES_TO_READ 2) (totalBytesRead (setup_fw 2))
        [take 5 frameA, drop 5 frameA, take 7 frameA, drop 7 frameA]
   \<and> concat [frameA, frameA] = concat [take 5 frameA, drop 5 frameA, take 7 frameA, drop 7 frameA]
   \<and> run 2 (setup_fw 2) [frameA, frameA]
       = run 2 (setup_fw 2) [take 5 frameA, drop 5 frameA, take 7 frameA, drop 7 frameA]"
proof -
  have a: "frame_aligned (NUMBER_OF_BYTES_TO_READ 2) (totalBytesRead (setup_fw 2)) [frameA, frameA]"
    by code_simp
  have b: "frame_aligned (NUMBER_OF_BYTES_TO_READ 2) (totalBytesRead (setup_fw 2))
        [take 5 frameA, drop 5 frameA, take 7 frameA, drop 7 frameA]"
    by code_simp
  have c: "concat [frameA, frameA] = concat [take 5 frameA, drop 5 frameA, take 7 frameA, drop 7 frameA]"
    by simp
  from a b c chunk_invariance_frame_aligned [OF a b c] show ?thesis
    by (intro conjI)
qed

theorem chunk_invariance_counterexample:
  "concat [frameA, frameA] = concat [chunk13, chunk11]
   \<and> length (concat [frameA, frameA]) = 2 * NUMBER_OF_BYTES_TO_READ 2
   \<and> length chunk13 \<le> DATA_BLOCK_SIZE \<and> length chunk11 \<le> DATA_BLOCK_SIZE
   \<and> leds1 (run 2 (setup_fw 2) [frameA, frameA]) = [CRGB 255 0 0, CRGB 0 255 0]
   \<and> leds2 (run 2 (setup_fw 2) [frameA, frameA]) = [CRGB 0 0 255, CRGB 128 128 128]
   \<and> leds1 (run 2 (setup_fw 2) [chunk13, chunk11]) = [CRGB 0 0 0, CRGB 255 0 0]
   \<and> leds2 (run 2 (setup_fw 2) [chunk13, chunk11]) = [CRGB 0 255 128, CRGB 128 128 128]
   \<and> leds1 (run 2 (setup_fw 2) [frameA, frameA]) \<noteq> leds1 (run 2 (setup_fw 2) [chunk13, chunk11])"
  by code_simp

section \<open>Acknowledgments\<close>

text \<open>
  C2. As the claim states it, every input would be answered once per frame length of
  bytes, each time the byte count reaches a multiple of the frame length. What holds:
  for every sequence of chunks, the answers are as many as the display calls and the
  k-th answer is not sent before k frame lengths of bytes have been consumed; and when
  no chunk reaches past the end of a frame, after every chunk the number of answers is
  the number of whole frames consumed so far and the counter is the remainder.
\<close>

theorem ack_per_frame:
  "NUMBER_OF_BYTES_TO_READ cap * length (written (trace (run cap (setup_fw cap) cs)))
     \<le> length (concat cs)
   \<and> length (written (trace (run cap (setup_fw cap) cs)))
       = displays (trace (run cap (setup_fw cap) cs))
   \<and> (frame_aligned (NUMBER_OF_BYTES_TO_READ cap) 0 cs \<longrightarrow>
        length (written (trace (run cap (setup_fw cap) (take k cs))))
          = length (concat (take k cs)) div NUMBER_OF_BYTES_TO_READ cap
        \<and> totalBytesRead (run cap (setup_fw cap) (take k cs))
          = length (concat (take k cs)) mod NUMBER_OF_BYTES_TO_READ cap)"
proof (intro conjI impI)
  let ?F = "NUMBER_OF_BYTES_TO_READ cap"
  have "?F * displays (trace (run cap (setup_fw cap) cs)) + totalBytesRead (run cap (setup_fw cap) cs)
        \<le> length (concat cs)"
    using run_never_early [of cap "setup_fw cap" cs] by (simp add: setup_fw_fields)
  then show "?F * length (written (trace (run cap (setup_fw cap) cs))) \<le> length (concat cs)"
    by (simp add: run_setup_written_length)
  show "length (written (trace (run cap (setup_fw cap) cs)))
        = displays (trace (run cap (setup_fw cap) cs))"
    by (rule run_setup_written_length)
  assume al: "frame_aligned ?F 0 cs"
  have both: "length (written (trace (run cap (setup_fw cap) (take k cs))))
          = length (concat (take k cs)) div ?F
        \<and> totalBytesRead (run cap (setup_fw cap) (take k cs))
          = length (concat (take k cs)) mod ?F"
  proof (cases "?F = 0")
    case True
    with al have "cs = []" by (simp add: frame_aligned_no_frame)
    then show ?thesis by (simp add: run_Nil setup_fw_fields)
  next
    case False
    have "frame_aligned ?F (totalBytesRead (setup_fw cap)) (take k cs)"
      using al by (simp add: setup_fw_fields frame_aligned_take)
    moreover have "totalBytesRead (setup_fw cap) < ?F"
      using False by (simp add: setup_fw_fields)
    ultimately show ?thesis
      using run_aligned_count [of cap "setup_fw cap" "take k cs"]
      by (simp add: setup_fw_fields run_setup_written_length)
  qed
  from both show "length (written (trace (run cap (setup_fw cap) (take k cs))))
          = length (concat (take k cs)) div ?F" ..
  from both show "totalBytesRead (run cap (setup_fw cap) (take k cs))
          = length (concat (take k cs)) mod ?F" ..
qed

theorem ack_per_frame_witness:
  "frame_aligned (NUMBER_OF_BYTES_TO_READ 2) 0 [take 5 frameA, drop 5 frameA, take 7 frameA]
   \<and> length (written (trace (run 2 (setup_fw 2)
         (take 2 [take 5 frameA, drop 5 frameA, take 7 frameA]))))
       = length (concat (take 2 [take 5 frameA, drop 5 frameA, take 7 frameA]))
           div NUMBER_OF_BYTES_TO_READ 2
   \<and> totalBytesRead (run 2 (setup_fw 2) (take 2 [take 5 frameA, drop 5 frameA, take 7 frameA]))
       = length (concat (take 2 [take 5 frameA, drop 5 frameA, take 7 frameA]))
           mod NUMBER_OF_BYTES_TO_READ 2"
proof -
  have a: "frame_aligned (NUMBER_OF_BYTES_TO_READ 2) 0 [take 5 frameA, drop 5 frameA, take 7 frameA]"
    by code_simp
  from a ack_per_frame [of 2 "[take 5 frameA, drop 5 frameA, take 7 frameA]" 2]
  show ?thesis by blast
qed

theorem ack_per_frame_counterexample:
  "length chunk13 = 13 \<and> length (concat [chunk13, chunk11]) = 24
   \<and> NUMBER_OF_BYTES_TO_READ 2 = 12
   \<and> written (trace (run 2 (setup_fw 2) [chunk13])) = [ACK_BYTE]
   \<and> totalBytesRead (run 2 (setup_fw 2) [chunk13]) = 0
   \<and> written (trace (run 2 (setup_fw 2) [chunk13, chunk11])) = [ACK_BYTE]
   \<and> displays (trace (run 2 (setup_fw 2) [chunk13, chunk11])) = 1
   \<and> totalBytesRead (run 2 (setup_fw 2) [chunk13, chunk11]) = 11"
  by code_simp

text \<open>
  C10. Every byte that a run writes to the transport is the fixed value 0xAA, one for
  each display call.
\<close>

theorem ack_byte_value:
  "written (trace (run cap (setup_fw cap) cs))
     = replicate (displays (trace (run cap (setup_fw cap) cs))) 0xAA
   \<and> ACK_BYTE = 0xAA"
  using run_written_displays [of cap "setup_fw cap" cs]
  by (simp add: setup_fw_fields ACK_BYTE_def)

theorem ack_byte_value_witness:
  "written (trace (run 2 (setup_fw 2) [frameA, frameA])) = [0xAA, 0xAA]"
proof -
  have "displays (trace (run 2 (setup_fw 2) [frameA, frameA])) = 2"
    by code_simp
  with ack_byte_value [of 2 "[frameA, frameA]"] show ?thesis
    by (simp add: numeral_2_eq_2)
qed

section \<open>The order of the gate's actions\<close>

text \<open>
  C3. When the gate fires it first shows both strips, then writes one answer byte, and
  only then sets the byte counter and the fill of the staging buffer to 0: after the
  first two actions the counters still have their old values. Hence in the log of every
  run each written byte comes directly after a display call.
\<close>

theorem gate_order:
  "(NUMBER_OF_BYTES_TO_READ cap \<le> totalBytesRead s \<longrightarrow>
      trace (FastLED_show s) = trace s @ [event.FastLED_show (leds1 s) (leds2 s)]
    \<and> trace (Serial_write ACK_BYTE (FastLED_show s))
        = trace (FastLED_show s) @ [event.Serial_write ACK_BYTE]
    \<and> totalBytesRead (Serial_write ACK_BYTE (FastLED_show s)) = totalBytesRead s
    \<and> ledIndex (Serial_write ACK_BYTE (FastLED_show s)) = ledIndex s
    \<and> frame_gate cap s = reset_counters (Serial_write ACK_BYTE (FastLED_show s))
    \<and> trace (frame_gate cap s)
        = trace s @ [event.FastLED_show (leds1 s) (leds2 s), event.Serial_write ACK_BYTE]
    \<and> totalBytesRead (frame_gate cap s) = 0
    \<and> ledIndex (frame_gate cap s) = 0)
   \<and> ack_follows_show False (trace (run cap (setup_fw cap) cs))"
proof (intro conjI impI)
  show "ack_follows_show False (trace (run cap (setup_fw cap) cs))"
    by (simp add: run_ack_follows_show setup_fw_fields)
qed (simp_all add: frame_gate_fires reset_counters_def FastLED_show_def Serial_write_def)

theorem gate_order_witness:
  "NUMBER_OF_BYTES_TO_READ 2 \<le> totalBytesRead (for_loop 2 (setup_fw 2) frameA)
   \<and> totalBytesRead (Serial_write ACK_BYTE (FastLED_show (for_loop 2 (setup_fw 2) frameA)))
       = totalBytesRead (for_loop 2 (setup_fw 2) frameA)
   \<and> trace (frame_gate 2 (for_loop 2 (setup_fw 2) frameA))
       = trace (for_loop 2 (setup_fw 2) frameA)
         @ [event.FastLED_show (leds1 (for_loop 2 (setup_fw 2) frameA))
              (leds2 (for_loop 2 (setup_fw 2) frameA)),
            event.Serial_write ACK_BYTE]
   \<and> totalBytesRead (frame_gate 2 (for_loop 2 (setup_fw 2) frameA)) = 0
   \<and> ledIndex (frame_gate 2 (for_loop 2 (setup_fw 2) frameA)) = 0
   \<and> ack_follows_show False (trace (run 2 (setup_fw 2) [frameA]))"
proof -
  have a: "NUMBER_OF_BYTES_TO_READ 2 \<le> totalBytesRead (for_loop 2 (setup_fw 2) frameA)"
    by code_simp
  from a gate_order [of 2 "for_loop 2 (setup_fw 2) frameA" "[frameA]"]
  show ?thesis by blast
qed

section \<open>The scenario with two pixels per strip\<close>

text \<open>
  C5. With two pixels per strip a frame has 12 bytes. The 12 bytes of the scenario,
  delivered from the initial state in any non-empty chunks, leave Strip 1 as
  (255,0,0), (0,255,0) and Strip 2 as (0,0,255), (128,128,128); the log gains one
  display call of exactly these strips followed by one answer byte; the byte counter and
  the fill of the staging buffer are back at 0.
\<close>

theorem scenario_two_pixels:
  assumes "concat cs = frameA" and "[] \<notin> set cs"
  shows "NUMBER_OF_BYTES_TO_READ 2 = 12
    \<and> leds1 (run 2 (setup_fw 2) cs) = [CRGB 255 0 0, CRGB 0 255 0]
    \<and> leds2 (run 2 (setup_fw 2) cs) = [CRGB 0 0 255, CRGB 128 128 128]
    \<and> trace (run 2 (setup_fw 2) cs)
        = trace (setup_fw 2)
          @ [event.FastLED_show [CRGB 255 0 0, CRGB 0 255 0] [CRGB 0 0 255, CRGB 128 128 128],
             event.Serial_write 0xAA]
    \<and> displays (trace (run 2 (setup_fw 2) cs)) = 1
    \<and> written (trace (run 2 (setup_fw 2) cs)) = [0xAA]
    \<and> totalBytesRead (run 2 (setup_fw 2) cs) = 0
    \<and> ledIndex (run 2 (setup_fw 2) cs) = 0"
proof -
  have "frame_aligned (NUMBER_OF_BYTES_TO_READ 2) (totalBytesRead (setup_fw 2)) cs"
    using assms by (intro frame_aligned_one_frame)
      (simp_all add: setup_fw_fields NUMBER_OF_BYTES_TO_READ_eq frameA_def)
  then have eq: "run 2 (setup_fw 2) cs = run 2 (setup_fw 2) (bytewise frameA)"
    using assms(1) by (simp add: run_aligned_bytewise)
  have bytes: "NUMBER_OF_BYTES_TO_READ 2 = 12
    \<and> leds1 (run 2 (setup_fw 2) (bytewise frameA)) = [CRGB 255 0 0, CRGB 0 255 0]
    \<and> leds2 (run 2 (setup_fw 2) (bytewise frameA)) = [CRGB 0 0 255, CRGB 128 128 128]
    \<and> trace (run 2 (setup_fw 2) (bytewise frameA))
        = trace (setup_fw 2)
          @ [event.FastLED_show [CRGB 255 0 0, CRGB 0 255 0] [CRGB 0 0 255, CRGB 128 128 128],
             event.Serial_write 0xAA]
    \<and> displays (trace (run 2 (setup_fw 2) (bytewise frameA))) = 1
    \<and> written (trace (run 2 (setup_fw 2) (bytewise frameA))) = [0xAA]
    \<and> totalBytesRead (run 2 (setup_fw 2) (bytewise frameA)) = 0
    \<and> ledIndex (run 2 (setup_fw 2) (bytewise frameA)) = 0"
    by code_simp
  show ?thesis
    unfolding eq by (rule bytes)
qed

theorem scenario_two_pixels_witness:
  "concat [frameA] = frameA \<and> [] \<notin> set [frameA]
   \<and> leds1 (run 2 (setup_fw 2) [frameA]) = [CRGB 255 0 0, CRGB 0 255 0]
   \<and> leds2 (run 2 (setup_fw 2) [frameA]) = [CRGB 0 0 255, CRGB 128 128 128]
   \<and> displays (trace (run 2 (setup_fw 2) [frameA])) = 1
   \<and> written (trace (run 2 (setup_fw 2) [frameA])) = [0xAA]
   \<and> totalBytesRead (run 2 (setup_fw 2) [frameA]) = 0
   \<and> ledIndex (run 2 (setup_fw 2) [frameA]) = 0"
proof -
  have a: "concat [frameA] = frameA" by simp
  have b: "[] \<notin> set [frameA]" by (simp add: frameA_def)
  from a b scenario_two_pixels [OF a b] show ?thesis by blast
qed

section \<open>Bounds on the indices\<close>

lemma pixel_target_cases:
  "pixel_target cap p =
     (if p < cap then Strip1 p else if p < 2 * cap then Strip2 (p - cap) else Discarded)"
  by (simp add: pixel_target_def TOTAL_LED_COUNT_def)

lemma process_chunk_ledIndex:
  "ledIndex (process_chunk cap s c) =
     (if NUMBER_OF_BYTES_TO_READ cap \<le> totalBytesRead s + length c then 0
      else ledIndex (for_loop cap s c))"
  by (simp add: process_chunk_def frame_gate_fields for_loop_fields)

lemma process_chunk_length:
  "length (leds1 (process_chunk cap s c)) = length (leds1 s)"
  "length (leds2 (process_chunk cap s c)) = length (leds2 s)"
  "length (ledBuffer (process_chunk cap s c)) = length (ledBuffer s)"
  by (simp_all add: process_chunk_fields for_loop_fields)

lemma run_length:
  "length (leds1 (run cap s cs)) = length (leds1 s)"
  "length (leds2 (run cap s cs)) = length (leds2 s)"
  "length (ledBuffer (run cap s cs)) = length (ledBuffer s)"
  by (induction cs arbitrary: s; simp add: run_Nil run_Cons process_chunk_length)+

lemma run_ledIndex_less:
  "ledIndex s < 3 \<Longrightarrow> ledIndex (run cap s cs) < 3"
proof (induction cs arbitrary: s)
  case Nil
  then show ?case by (simp add: run_Nil)
next
  case (Cons c cs)
  have "ledIndex (process_chunk cap s c) < 3"
    using Cons.prems by (simp add: process_chunk_ledIndex for_loop_ledIndex_less)
  then show ?case
    by (simp add: run_Cons Cons.IH)
qed

lemma run_ledIndex_mod:
  "ledIndex s = totalBytesRead s mod 3 \<Longrightarrow>
   ledIndex (run cap s cs) = totalBytesRead (run cap s cs) mod 3"
proof (induction cs arbitrary: s)
  case Nil
  then show ?case by (simp add: run_Nil)
next
  case (Cons c cs)
  have "ledIndex (process_chunk cap s c) = totalBytesRead (process_chunk cap s c) mod 3"
    using for_loop_ledIndex_mod [OF Cons.prems, of cap c]
    by (simp add: process_chunk_ledIndex process_chunk_fields for_loop_fields)
  then show ?case
    by (simp add: run_Cons Cons.IH)
qed

text \<open>
  C6. A triplet that is completed while the pixel position computed from the byte
  counter is at or beyond twice the strip length changes neither strip, and its byte is
  counted like any other. Every index that the router does write at is below the strip
  length, and at every point of every run both strips have exactly that length.
\<close>

theorem overrun_discarded:
  "(ledIndex s = 2 \<and> 2 * cap \<le> totalBytesRead s div 3 \<longrightarrow>
      pixel_target cap (totalBytesRead (store_byte s x) div 3) = Discarded
    \<and> leds1 (for_body cap s x) = leds1 s
    \<and> leds2 (for_body cap s x) = leds2 s
    \<and> totalBytesRead (for_body cap s x) = totalBytesRead s + 1)
   \<and> (pixel_target cap p = Strip1 i \<longrightarrow> i < cap)
   \<and> (pixel_target cap p = Strip2 i \<longrightarrow> i < cap)
   \<and> length (leds1 (for_loop cap (run cap (setup_fw cap) cs) bs)) = cap
   \<and> length (leds2 (for_loop cap (run cap (setup_fw cap) cs) bs)) = cap"
proof (intro conjI impI)
  assume a: "ledIndex s = 2 \<and> 2 * cap \<le> totalBytesRead s div 3"
  then show d: "pixel_target cap (totalBytesRead (store_byte s x) div 3) = Discarded"
    by (simp add: pixel_target_cases store_byte_fields)
  from a d show "leds1 (for_body cap s x) = leds1 s"
    by (simp add: for_body_leds1 write_pixel_leds1 store_byte_fields)
  from a d show "leds2 (for_body cap s x) = leds2 s"
    by (simp add: for_body_leds2 write_pixel_leds2 store_byte_fields)
  show "totalBytesRead (for_body cap s x) = totalBytesRead s + 1"
    by (simp add: for_body_fields)
next
  assume "pixel_target cap p = Strip1 i"
  then show "i < cap"
    by (simp add: pixel_target_cases split: if_splits)
next
  assume "pixel_target cap p = Strip2 i"
  then show "i < cap"
    by (auto simp add: pixel_target_cases split: if_splits)
next
  show "length (leds1 (for_loop cap (run cap (setup_fw cap) cs) bs)) = cap"
    by (simp add: for_loop_fields run_length setup_fw_fields)
  show "length (leds2 (for_loop cap (run cap (setup_fw cap) cs) bs)) = cap"
    by (simp add: for_loop_fields run_length setup_fw_fields)
qed

theorem overrun_discarded_witness:
  "ledIndex (for_loop 2 (setup_fw 2) (frameA @ [1, 2])) = 2
   \<and> 2 * 2 \<le> totalBytesRead (for_loop 2 (setup_fw 2) (frameA @ [1, 2])) div 3
   \<and> leds1 (for_body 2 (for_loop 2 (setup_fw 2) (frameA @ [1, 2])) 3)
       = leds1 (for_loop 2 (setup_fw 2) (frameA @ [1, 2]))
   \<and> leds2 (for_body 2 (for_loop 2 (setup_fw 2) (frameA @ [1, 2])) 3)
       = leds2 (for_loop 2 (setup_fw 2) (frameA @ [1, 2]))
   \<and> totalBytesRead (for_body 2 (for_loop 2 (setup_fw 2) (frameA @ [1, 2])) 3)
       = totalBytesRead (for_loop 2 (setup_fw 2) (frameA @ [1, 2])) + 1
   \<and> pixel_target 2 1 = Strip1 1 \<and> (1::nat) < 2
   \<and> pixel_target 2 3 = Strip2 1"
proof -
  have a: "ledIndex (for_loop 2 (setup_fw 2) (frameA @ [1, 2])) = 2
      \<and> 2 * 2 \<le> totalBytesRead (for_loop 2 (setup_fw 2) (frameA @ [1, 2])) div 3"
    by code_simp
  have b: "pixel_target 2 1 = Strip1 1"
    by code_simp
  have c: "pixel_target 2 3 = Strip2 1"
    by code_simp
  from a b c
    overrun_discarded [of "for_loop 2 (setup_fw 2) (frameA @ [1, 2])" 2 3 1 1 "[]" "[]"]
    overrun_discarded [of "for_loop 2 (setup_fw 2) (frameA @ [1, 2])" 2 3 3 1 "[]" "[]"]
  show ?thesis by blast
qed

section \<open>The staging buffer\<close>

text \<open>
  C8. At every point of every run between two bytes, the fill of the staging buffer is
  0, 1 or 2 (so the next byte is stored inside the buffer). Storing a byte raises it to
  at most 3; it is 3 exactly when it was 2, and then the triplet is handed to the router
  and the fill is 0 again before the byte is counted.
\<close>

theorem staging_fill:
  "ledIndex (for_loop cap (run cap (setup_fw cap) cs) bs) \<in> {0, 1, 2}
   \<and> ledIndex (for_loop cap (run cap (setup_fw cap) cs) bs)
       < length (ledBuffer (for_loop cap (run cap (setup_fw cap) cs) bs))
   \<and> ledIndex (store_byte (for_loop cap (run cap (setup_fw cap) cs) bs) x) \<le> 3
   \<and> (ledIndex (store_byte (for_loop cap (run cap (setup_fw cap) cs) bs) x) = 3
        \<longleftrightarrow> ledIndex (for_loop cap (run cap (setup_fw cap) cs) bs) = 2)
   \<and> (ledIndex (store_byte (for_loop cap (run cap (setup_fw cap) cs) bs) x) = 3 \<longrightarrow>
        complete_triplet cap (store_byte (for_loop cap (run cap (setup_fw cap) cs) bs) x)
          = (write_pixel cap (store_byte (for_loop cap (run cap (setup_fw cap) cs) bs) x))
              \<lparr> ledIndex := 0 \<rparr>
        \<and> ledIndex (for_body cap (for_loop cap (run cap (setup_fw cap) cs) bs) x) = 0)
   \<and> (ledIndex (store_byte (for_loop cap (run cap (setup_fw cap) cs) bs) x) \<noteq> 3 \<longrightarrow>
        complete_triplet cap (store_byte (for_loop cap (run cap (setup_fw cap) cs) bs) x)
          = store_byte (for_loop cap (run cap (setup_fw cap) cs) bs) x)
   \<and> ledIndex (process_chunk cap (run cap (setup_fw cap) cs) bs) \<in> {0, 1, 2}"
proof -
  let ?st = "for_loop cap (run cap (setup_fw cap) cs) bs"
  have "ledIndex (run cap (setup_fw cap) cs) < 3"
    by (simp add: run_ledIndex_less setup_fw_fields)
  then have less: "ledIndex ?st < 3"
    by (rule for_loop_ledIndex_less)
  have len: "length (ledBuffer ?st) = 3"
    by (simp add: for_loop_fields run_length setup_fw_fields)
  have gate: "ledIndex (process_chunk cap (run cap (setup_fw cap) cs) bs) < 3"
    using less by (simp add: process_chunk_ledIndex)
  have "ledIndex ?st \<in> {0, 1, 2}"
    using less by auto
  moreover have "ledIndex (process_chunk cap (run cap (setup_fw cap) cs) bs) \<in> {0, 1, 2}"
    using gate by auto
  moreover have "ledIndex ?st < length (ledBuffer ?st)"
    using less len by simp
  moreover have "ledIndex (store_byte ?st x) \<le> 3"
    using less by (simp add: store_byte_fields)
  moreover have "ledIndex (store_byte ?st x) = 3 \<longleftrightarrow> ledIndex ?st = 2"
    by (simp add: store_byte_fields)
  moreover have "ledIndex (store_byte ?st x) = 3 \<longrightarrow>
        complete_triplet cap (store_byte ?st x) = (write_pixel cap (store_byte ?st x))\<lparr> ledIndex := 0 \<rparr>
        \<and> ledIndex (for_body cap ?st x) = 0"
    by (simp add: complete_triplet_def for_body_fields store_byte_fields)
  moreover have "ledIndex (store_byte ?st x) \<noteq> 3 \<longrightarrow>
        complete_triplet cap (store_byte ?st x) = store_byte ?st x"
    by (simp add: complete_triplet_def)
  ultimately show ?thesis
    by blast
qed

theorem staging_fill_witness:
  "ledIndex (store_byte (for_loop 2 (run 2 (setup_fw 2) [frameA]) [7, 8]) 9) = 3
   \<and> ledIndex (for_loop 2 (run 2 (setup_fw 2) [frameA]) [7, 8]) = 2
   \<and> complete_triplet 2 (store_byte (for_loop 2 (run 2 (setup_fw 2) [frameA]) [7, 8]) 9)
       = (write_pixel 2 (store_byte (for_loop 2 (run 2 (setup_fw 2) [frameA]) [7, 8]) 9))
           \<lparr> ledIndex := 0 \<rparr>
   \<and> ledIndex (for_body 2 (for_loop 2 (run 2 (setup_fw 2) [frameA]) [7, 8]) 9) = 0
   \<and> ledIndex (store_byte (for_loop 2 (run 2 (setup_fw 2) [frameA]) [7]) 8) \<noteq> 3
   \<and> complete_triplet 2 (store_byte (for_loop 2 (run 2 (setup_fw 2) [frameA]) [7]) 8)
       = store_byte (for_loop 2 (run 2 (setup_fw 2) [frameA]) [7]) 8"
proof -
  have a: "ledIndex (store_byte (for_loop 2 (run 2 (setup_fw 2) [frameA]) [7, 8]) 9) = 3"
    by code_simp
  have b: "ledIndex (store_byte (for_loop 2 (run 2 (setup_fw 2) [frameA]) [7]) 8) \<noteq> 3"
    by code_simp
  from a b staging_fill [of 2 "[frameA]" "[7, 8]" 9] staging_fill [of 2 "[frameA]" "[7]" 8]
  show ?thesis by blast
qed

section \<open>A chunk that reaches past the end of a frame\<close>

lemma for_body_surplus:
  "NUMBER_OF_BYTES_TO_READ cap \<le> totalBytesRead s \<Longrightarrow>
   leds1 (for_body cap s x) = leds1 s \<and> leds2 (for_body cap s x) = leds2 s"
proof -
  assume "NUMBER_OF_BYTES_TO_READ cap \<le> totalBytesRead s"
  then have "2 * cap \<le> totalBytesRead s div 3"
    by (simp add: NUMBER_OF_BYTES_TO_READ_eq)
  then have "pixel_target cap (totalBytesRead (store_byte s x) div 3) = Discarded"
    by (simp add: pixel_target_cases store_byte_fields)
  then show ?thesis
    by (simp add: for_body_leds1 for_body_leds2 write_pixel_leds1 write_pixel_leds2
        store_byte_fields)
qed

lemma for_loop_surplus:
  "NUMBER_OF_BYTES_TO_READ cap \<le> totalBytesRead s \<Longrightarrow>
   leds1 (for_loop cap s e) = leds1 s \<and> leds2 (for_loop cap s e) = leds2 s"
proof (induction e arbitrary: s)
  case Nil
  then show ?case by (simp add: for_loop_Nil)
next
  case (Cons x e)
  have "NUMBER_OF_BYTES_TO_READ cap \<le> totalBytesRead (for_body cap s x)"
    using Cons.prems by (simp add: for_body_fields)
  then have "leds1 (for_loop cap (for_body cap s x) e) = leds1 (for_body cap s x)
      \<and> leds2 (for_loop cap (for_body cap s x) e) = leds2 (for_body cap s x)"
    by (rule Cons.IH)
  then show ?case
    using for_body_surplus [OF Cons.prems, of x] by (simp add: for_loop_Cons)
qed

text \<open>
  C9. When a chunk holds bytes beyond those that complete the frame, the gate fires
  once, after the whole chunk. The surplus bytes reach neither strip: what is shown,
  and what the strips hold afterwards, is what the bytes up to the end of the frame
  produced. The counter and the fill of the staging buffer are 0 afterwards, so the
  surplus is not counted for the next frame; the state differs from the one without the
  surplus only in the stale bytes left in the staging buffer.
\<close>

theorem surplus_dropped:
  assumes "NUMBER_OF_BYTES_TO_READ cap \<le> totalBytesRead s + length a"
  shows "leds1 (process_chunk cap s (a @ e)) = leds1 (for_loop cap s a)
    \<and> leds2 (process_chunk cap s (a @ e)) = leds2 (for_loop cap s a)
    \<and> trace (process_chunk cap s (a @ e))
        = trace s @ [event.FastLED_show (leds1 (for_loop cap s a)) (leds2 (for_loop cap s a)),
                     event.Serial_write ACK_BYTE]
    \<and> totalBytesRead (for_loop cap s (a @ e)) = totalBytesRead s + length a + length e
    \<and> totalBytesRead (process_chunk cap s (a @ e)) = 0
    \<and> ledIndex (process_chunk cap s (a @ e)) = 0
    \<and> process_chunk cap s (a @ e)
        = (process_chunk cap s a)\<lparr> ledBuffer := ledBuffer (for_loop cap s (a @ e)) \<rparr>"
proof -
  have full: "NUMBER_OF_BYTES_TO_READ cap \<le> totalBytesRead (for_loop cap s a)"
    using assms by (simp add: for_loop_fields)
  have strips: "leds1 (for_loop cap s (a @ e)) = leds1 (for_loop cap s a)
      \<and> leds2 (for_loop cap s (a @ e)) = leds2 (for_loop cap s a)"
    using for_loop_surplus [OF full, of e] by (simp add: for_loop_append)
  have l1: "leds1 (process_chunk cap s (a @ e)) = leds1 (for_loop cap s a)"
    and l2: "leds2 (process_chunk cap s (a @ e)) = leds2 (for_loop cap s a)"
    using strips by (simp_all add: process_chunk_fields)
  have tr: "trace (process_chunk cap s (a @ e))
        = trace s @ [event.FastLED_show (leds1 (for_loop cap s a)) (leds2 (for_loop cap s a)),
                     event.Serial_write ACK_BYTE]"
    using assms strips by (simp add: process_chunk_fields)
  have cnt: "totalBytesRead (process_chunk cap s (a @ e)) = 0"
    and idx: "ledIndex (process_chunk cap s (a @ e)) = 0"
    using assms by (simp_all add: process_chunk_fields process_chunk_ledIndex)
  have blocks: "receivedBlocks (process_chunk cap s (a @ e)) = receivedBlocks (process_chunk cap s a)"
    using assms
    by (simp add: process_chunk_def frame_gate_def for_loop_fields reset_counters_def
        Serial_write_def FastLED_show_def)
  have eq: "process_chunk cap s (a @ e)
        = (process_chunk cap s a)\<lparr> ledBuffer := ledBuffer (for_loop cap s (a @ e)) \<rparr>"
    using assms l1 l2 tr cnt idx blocks
    by (intro state.equality) (simp_all add: process_chunk_fields process_chunk_ledIndex)
  have total: "totalBytesRead (for_loop cap s (a @ e)) = totalBytesRead s + length a + length e"
    by (simp add: for_loop_fields)
  from l1 l2 tr total cnt idx eq show ?thesis
    by blast
qed

theorem surplus_dropped_witness:
  "NUMBER_OF_BYTES_TO_READ 2 \<le> totalBytesRead (setup_fw 2) + length frameA
   \<and> leds1 (process_chunk 2 (setup_fw 2) (frameA @ [9, 9, 9, 9])) = leds1 (for_loop 2 (setup_fw 2) frameA)
   \<and> leds2 (process_chunk 2 (setup_fw 2) (frameA @ [9, 9, 9, 9])) = leds2 (for_loop 2 (setup_fw 2) frameA)
   \<and> trace (process_chunk 2 (setup_fw 2) (frameA @ [9, 9, 9, 9]))
       = trace (setup_fw 2)
         @ [event.FastLED_show (leds1 (for_loop 2 (setup_fw 2) frameA))
              (leds2 (for_loop 2 (setup_fw 2) frameA)),
            event.Serial_write ACK_BYTE]
   \<and> totalBytesRead (process_chunk 2 (setup_fw 2) (frameA @ [9, 9, 9, 9])) = 0
   \<and> ledIndex (process_chunk 2 (setup_fw 2) (frameA @ [9, 9, 9, 9])) = 0"
proof -
  have a: "NUMBER_OF_BYTES_TO_READ 2 \<le> totalBytesRead (setup_fw 2) + length frameA"
    by code_simp
  from a surplus_dropped [OF a, of "[9, 9, 9, 9]"] show ?thesis
    by blast
qed

section \<open>The byte counter\<close>

lemma run_total_less:
  "0 < cap \<Longrightarrow> totalBytesRead s < NUMBER_OF_BYTES_TO_READ cap \<Longrightarrow>
   totalBytesRead (run cap s cs) < NUMBER_OF_BYTES_TO_READ cap"
proof (induction cs arbitrary: s)
  case Nil
  then show ?case by (simp add: run_Nil)
next
  case (Cons c cs)
  have "totalBytesRead (process_chunk cap s c) < NUMBER_OF_BYTES_TO_READ cap"
    using Cons.prems(1) by (simp add: process_chunk_fields NUMBER_OF_BYTES_TO_READ_eq)
  with Cons.prems(1) show ?case
    by (simp add: run_Cons Cons.IH)
qed

text \<open>
  With the configuration of the source (150 pixels per strip, at most 64 bytes per
  chunk) the counter stays below 964 and the pixel position below 322, far inside the
  range of a 16-bit \<^verbatim>\<open>int\<close>.
\<close>

lemma counter_bound_source_config:
  assumes "length bs \<le> DATA_BLOCK_SIZE"
  shows "totalBytesRead
           (for_loop LED_COUNT_PER_STRIP
              (run LED_COUNT_PER_STRIP (setup_fw LED_COUNT_PER_STRIP) cs) bs) \<le> 963"
proof -
  have "totalBytesRead (run LED_COUNT_PER_STRIP (setup_fw LED_COUNT_PER_STRIP) cs)
        < NUMBER_OF_BYTES_TO_READ LED_COUNT_PER_STRIP"
    by (intro run_total_less)
      (simp_all add: setup_fw_fields LED_COUNT_PER_STRIP_def NUMBER_OF_BYTES_TO_READ_eq)
  then show ?thesis
    using assms
    by (simp add: for_loop_fields NUMBER_OF_BYTES_TO_READ_eq LED_COUNT_PER_STRIP_def
        DATA_BLOCK_SIZE_def)
qed

text \<open>
  C7. As the claim states it, the byte counter would never exceed the frame length.
  Inside a chunk that reaches past the end of a frame it does. What holds, for strips
  that are not empty: after every iteration of the \<^verbatim>\<open>while\<close> loop the counter is
  below the frame length; while a chunk of at most \<^verbatim>\<open>DATA_BLOCK_SIZE\<close> bytes is processed
  it stays below the frame length plus \<^verbatim>\<open>DATA_BLOCK_SIZE\<close>, and it does not exceed
  the frame length when the chunk ends at or before the end of the frame; the counter
  is set to 0 exactly when the gate fires, which adds one display call, and it still
  has its value after the display call and the answer.
\<close>

theorem counter_bounds:
  assumes "0 < cap" and "length bs \<le> DATA_BLOCK_SIZE"
  shows "totalBytesRead (run cap (setup_fw cap) cs) < NUMBER_OF_BYTES_TO_READ cap
    \<and> totalBytesRead (for_loop cap (run cap (setup_fw cap) cs) bs)
        < NUMBER_OF_BYTES_TO_READ cap + DATA_BLOCK_SIZE
    \<and> (totalBytesRead (run cap (setup_fw cap) cs) + length bs \<le> NUMBER_OF_BYTES_TO_READ cap \<longrightarrow>
        totalBytesRead (for_loop cap (run cap (setup_fw cap) cs) bs) \<le> NUMBER_OF_BYTES_TO_READ cap)
    \<and> (NUMBER_OF_BYTES_TO_READ cap \<le> totalBytesRead (for_loop cap (run cap (setup_fw cap) cs) bs) \<longrightarrow>
        totalBytesRead (Serial_write ACK_BYTE (FastLED_show (for_loop cap (run cap (setup_fw cap) cs) bs)))
          = totalBytesRead (for_loop cap (run cap (setup_fw cap) cs) bs)
        \<and> totalBytesRead (process_chunk cap (run cap (setup_fw cap) cs) bs) = 0
        \<and> displays (trace (process_chunk cap (run cap (setup_fw cap) cs) bs))
            = Suc (displays (trace (run cap (setup_fw cap) cs))))
    \<and> (totalBytesRead (for_loop cap (run cap (setup_fw cap) cs) bs) < NUMBER_OF_BYTES_TO_READ cap \<longrightarrow>
        totalBytesRead (process_chunk cap (run cap (setup_fw cap) cs) bs)
          = totalBytesRead (for_loop cap (run cap (setup_fw cap) cs) bs)
        \<and> displays (trace (process_chunk cap (run cap (setup_fw cap) cs) bs))
            = displays (trace (run cap (setup_fw cap) cs)))"
proof -
  let ?F = "NUMBER_OF_BYTES_TO_READ cap"
  let ?r = "run cap (setup_fw cap) cs"
  have less: "totalBytesRead ?r < ?F"
    using assms(1) by (intro run_total_less) (simp_all add: setup_fw_fields NUMBER_OF_BYTES_TO_READ_eq)
  have mid: "totalBytesRead (for_loop cap ?r bs) < ?F + DATA_BLOCK_SIZE"
    using less assms(2) by (simp add: for_loop_fields)
  have fit: "totalBytesRead ?r + length bs \<le> ?F \<longrightarrow> totalBytesRead (for_loop cap ?r bs) \<le> ?F"
    by (simp add: for_loop_fields)
  have fire: "?F \<le> totalBytesRead (for_loop cap ?r bs) \<longrightarrow>
        totalBytesRead (Serial_write ACK_BYTE (FastLED_show (for_loop cap ?r bs)))
          = totalBytesRead (for_loop cap ?r bs)
        \<and> totalBytesRead (process_chunk cap ?r bs) = 0
        \<and> displays (trace (process_chunk cap ?r bs)) = Suc (displays (trace ?r))"
    by (simp add: for_loop_fields process_chunk_fields(4) process_chunk_displays
        Serial_write_def FastLED_show_def)
  have idle: "totalBytesRead (for_loop cap ?r bs) < ?F \<longrightarrow>
        totalBytesRead (process_chunk cap ?r bs) = totalBytesRead (for_loop cap ?r bs)
        \<and> displays (trace (process_chunk cap ?r bs)) = displays (trace ?r)"
    by (simp add: for_loop_fields process_chunk_fields(4) process_chunk_displays)
  from less mid fit fire idle show ?thesis
    by blast
qed

theorem counter_bounds_witness:
  "(0::nat) < 2 \<and> length chunk13 \<le> DATA_BLOCK_SIZE
   \<and> totalBytesRead (run 2 (setup_fw 2) [take 5 frameA]) < NUMBER_OF_BYTES_TO_READ 2
   \<and> totalBytesRead (for_loop 2 (run 2 (setup_fw 2) [take 5 frameA]) chunk13)
       < NUMBER_OF_BYTES_TO_READ 2 + DATA_BLOCK_SIZE
   \<and> NUMBER_OF_BYTES_TO_READ 2 \<le> totalBytesRead (for_loop 2 (run 2 (setup_fw 2) [take 5 frameA]) chunk13)
   \<and> totalBytesRead (process_chunk 2 (run 2 (setup_fw 2) [take 5 frameA]) chunk13) = 0
   \<and> displays (trace (process_chunk 2 (run 2 (setup_fw 2) [take 5 frameA]) chunk13))
       = Suc (displays (trace (run 2 (setup_fw 2) [take 5 frameA])))"
proof -
  have a: "(0::nat) < 2" by simp
  have b: "length chunk13 \<le> DATA_BLOCK_SIZE" by code_simp
  have c: "NUMBER_OF_BYTES_TO_READ 2
      \<le> totalBytesRead (for_loop 2 (run 2 (setup_fw 2) [take 5 frameA]) chunk13)"
    by code_simp
  from a b c counter_bounds [OF a b, of "[take 5 frameA]"] show ?thesis
    by blast
qed

theorem counter_bounds_counterexample:
  "length chunk13 \<le> DATA_BLOCK_SIZE
   \<and> NUMBER_OF_BYTES_TO_READ 2 = 12
   \<and> totalBytesRead (for_loop 2 (setup_fw 2) chunk13) = 13
   \<and> \<not> totalBytesRead (for_loop 2 (setup_fw 2) chunk13) \<le> NUMBER_OF_BYTES_TO_READ 2"
  by code_simp

section \<open>Routing of pixels\<close>

lemma triplet_snoc:
  "3 * k + 2 < length bs \<Longrightarrow> triplet (bs @ [x]) k = triplet bs k"
  by (simp add: triplet_def nth_append)

text \<open>
  The state after any part of a frame, from a state in which a frame starts: the staging
  buffer holds the bytes of the triplet under way, and each strip holds the pixels of
  the triplets completed so far at their places, with the other pixels as before.
\<close>

lemma for_loop_frame:
  assumes start: "totalBytesRead s = 0" "ledIndex s = 0"
    and len: "length (leds1 s) = cap" "length (leds2 s) = cap" "length (ledBuffer s) = 3"
  shows "length bs \<le> NUMBER_OF_BYTES_TO_READ cap \<Longrightarrow>
     (\<forall>j < length bs mod 3. ledBuffer (for_loop cap s bs) ! j = bs ! (3 * (length bs div 3) + j))
   \<and> (\<forall>i < cap. leds1 (for_loop cap s bs) ! i
          = (if 3 * i + 2 < length bs then triplet bs i else leds1 s ! i))
   \<and> (\<forall>i < cap. leds2 (for_loop cap s bs) ! i
          = (if 3 * (cap + i) + 2 < length bs then triplet bs (cap + i) else leds2 s ! i))"
proof (induction bs rule: rev_induct)
  case Nil
  then show ?case by (simp add: for_loop_Nil)
next
  case (snoc x bs)
  let ?st = "for_loop cap s bs"
  let ?n = "length bs"
  let ?k = "?n div 3"
  from snoc.prems have room: "?n < 6 * cap"
    by (simp add: NUMBER_OF_BYTES_TO_READ_eq)
  then have "?n \<le> NUMBER_OF_BYTES_TO_READ cap"
    by (simp add: NUMBER_OF_BYTES_TO_READ_eq)
  with snoc.IH have
    buf: "\<And>j. j < ?n mod 3 \<Longrightarrow> ledBuffer ?st ! j = bs ! (3 * ?k + j)" and
    s1: "\<And>i. i < cap \<Longrightarrow> leds1 ?st ! i = (if 3 * i + 2 < ?n then triplet bs i else leds1 s ! i)" and
    s2: "\<And>i. i < cap \<Longrightarrow> leds2 ?st ! i
            = (if 3 * (cap + i) + 2 < ?n then triplet bs (cap + i) else leds2 s ! i)"
    by simp_all
  have cnt: "totalBytesRead ?st = ?n"
    using start by (simp add: for_loop_fields)
  have idx: "ledIndex ?st = ?n mod 3"
    using for_loop_ledIndex_mod [of s cap bs] start by (simp add: for_loop_fields)
  have lens: "length (leds1 ?st) = cap" "length (leds2 ?st) = cap" "length (ledBuffer ?st) = 3"
    using len by (simp_all add: for_loop_fields)
  show ?case
  proof (cases "?n mod 3 = 2")
    case True
    then have n: "?n = 3 * ?k + 2"
      by presburger
    have k: "?k < 2 * cap"
      using room by simp
    have px: "CRGB (ledBuffer (store_byte ?st x) ! 0) (ledBuffer (store_byte ?st x) ! 1)
                (ledBuffer (store_byte ?st x) ! 2) = triplet (bs @ [x]) ?k"
    proof -
      have "ledBuffer (store_byte ?st x) = (ledBuffer ?st)[2 := x]"
        using idx True by (simp add: store_byte_fields)
      moreover have "ledBuffer ?st ! 0 = bs ! (3 * ?k)" "ledBuffer ?st ! 1 = bs ! (3 * ?k + 1)"
        using buf [of 0] buf [of 1] True by simp_all
      moreover have "(bs @ [x]) ! (3 * ?k) = bs ! (3 * ?k)" "(bs @ [x]) ! (3 * ?k + 1) = bs ! (3 * ?k + 1)"
        "(bs @ [x]) ! (3 * ?k + 2) = x"
        using n by (simp_all add: nth_append)
      ultimately show ?thesis
        using lens(3) by (simp add: triplet_def)
    qed
    have tgt: "pixel_target cap (totalBytesRead (store_byte ?st x) div 3)
        = (if ?k < cap then Strip1 ?k else Strip2 (?k - cap))"
      using k by (simp add: pixel_target_cases store_byte_fields cnt)
    have new1: "leds1 (for_body cap ?st x)
        = (if ?k < cap then (leds1 ?st)[?k := triplet (bs @ [x]) ?k] else leds1 ?st)"
      using idx True px tgt
      by (simp add: for_body_leds1 write_pixel_leds1 store_byte_fields)
    have new2: "leds2 (for_body cap ?st x)
        = (if ?k < cap then leds2 ?st else (leds2 ?st)[?k - cap := triplet (bs @ [x]) ?k])"
      using idx True px tgt
      by (simp add: for_body_leds2 write_pixel_leds2 store_byte_fields)
    have a: "\<forall>j < length (bs @ [x]) mod 3.
        ledBuffer (for_loop cap s (bs @ [x])) ! j = (bs @ [x]) ! (3 * (length (bs @ [x]) div 3) + j)"
    proof -
      have "length (bs @ [x]) mod 3 = 0"
        using True by simp presburger
      then show ?thesis by simp
    qed
    have b: "\<forall>i < cap. leds1 (for_loop cap s (bs @ [x])) ! i
          = (if 3 * i + 2 < length (bs @ [x]) then triplet (bs @ [x]) i else leds1 s ! i)"
    proof (intro allI impI)
      fix i assume i: "i < cap"
      show "leds1 (for_loop cap s (bs @ [x])) ! i
          = (if 3 * i + 2 < length (bs @ [x]) then triplet (bs @ [x]) i else leds1 s ! i)"
      proof (cases "i = ?k")
        case True
        with i n lens(1) show ?thesis
          by (simp add: for_loop_snoc new1)
      next
        case False
        then have neq: "3 * i + 2 \<noteq> ?n"
          using n by presburger
        then have iff: "3 * i + 2 < length (bs @ [x]) \<longleftrightarrow> 3 * i + 2 < ?n"
          by auto
        have "leds1 (for_loop cap s (bs @ [x])) ! i = leds1 ?st ! i"
          using False by (simp add: for_loop_snoc new1)
        then show ?thesis
          using s1 [OF i] iff by (simp add: triplet_snoc)
      qed
    qed
    have c: "\<forall>i < cap. leds2 (for_loop cap s (bs @ [x])) ! i
          = (if 3 * (cap + i) + 2 < length (bs @ [x]) then triplet (bs @ [x]) (cap + i)
             else leds2 s ! i)"
    proof (intro allI impI)
      fix i assume i: "i < cap"
      show "leds2 (for_loop cap s (bs @ [x])) ! i
          = (if 3 * (cap + i) + 2 < length (bs @ [x]) then triplet (bs @ [x]) (cap + i)
             else leds2 s ! i)"
      proof (cases "cap + i = ?k")
        case True
        then have "\<not> ?k < cap" and "?k - cap = i"
          by simp_all
        with True i n lens(2) show ?thesis
          by (simp add: for_loop_snoc new2)
      next
        case False
        then have neq: "3 * (cap + i) + 2 \<noteq> ?n"
          using n by presburger
        then have iff: "3 * (cap + i) + 2 < length (bs @ [x]) \<longleftrightarrow> 3 * (cap + i) + 2 < ?n"
          by auto
        have "?k - cap \<noteq> i \<or> ?k < cap"
          using False by auto
        then have "leds2 (for_loop cap s (bs @ [x])) ! i = leds2 ?st ! i"
          by (auto simp add: for_loop_snoc new2)
        then show ?thesis
          using s2 [OF i] iff by (simp add: triplet_snoc)
      qed
    qed
    from a b c show ?thesis by blast
  next
    case False
    then have m: "?n mod 3 < 2"
      by presburger
    have same1: "leds1 (for_loop cap s (bs @ [x])) = leds1 ?st"
      and same2: "leds2 (for_loop cap s (bs @ [x])) = leds2 ?st"
      using idx False by (simp_all add: for_loop_snoc for_body_leds1 for_body_leds2)
    have div: "length (bs @ [x]) div 3 = ?k" and md: "length (bs @ [x]) mod 3 = Suc (?n mod 3)"
      using m by (simp_all, presburger+)
    have a: "\<forall>j < length (bs @ [x]) mod 3.
        ledBuffer (for_loop cap s (bs @ [x])) ! j = (bs @ [x]) ! (3 * (length (bs @ [x]) div 3) + j)"
    proof (intro allI impI)
      fix j assume "j < length (bs @ [x]) mod 3"
      then have j: "j < Suc (?n mod 3)"
        by (simp only: md)
      have lb: "ledBuffer (for_loop cap s (bs @ [x])) = (ledBuffer ?st)[?n mod 3 := x]"
        using idx by (simp add: for_loop_snoc for_body_fields)
      have whole: "3 * ?k + ?n mod 3 = ?n"
        by presburger
      show "ledBuffer (for_loop cap s (bs @ [x])) ! j = (bs @ [x]) ! (3 * (length (bs @ [x]) div 3) + j)"
      proof (cases "j = ?n mod 3")
        case True
        then show ?thesis
          using lens(3) m whole by (simp add: lb div del: length_append)
      next
        case False
        with j have jl: "j < ?n mod 3" by simp
        then have "3 * ?k + j < ?n"
          using whole by linarith
        then show ?thesis
          using False buf [OF jl] by (simp add: lb div nth_append del: length_append)
      qed
    qed
    have nothird: "\<And>i. 3 * i + 2 \<noteq> ?n"
      using False by presburger
    have b: "\<forall>i < cap. leds1 (for_loop cap s (bs @ [x])) ! i
          = (if 3 * i + 2 < length (bs @ [x]) then triplet (bs @ [x]) i else leds1 s ! i)"
    proof (intro allI impI)
      fix i assume i: "i < cap"
      have iff: "3 * i + 2 < length (bs @ [x]) \<longleftrightarrow> 3 * i + 2 < ?n"
        using nothird [of i] by auto
      show "leds1 (for_loop cap s (bs @ [x])) ! i
          = (if 3 * i + 2 < length (bs @ [x]) then triplet (bs @ [x]) i else leds1 s ! i)"
        using s1 [OF i] iff by (simp add: same1 triplet_snoc)
    qed
    have c: "\<forall>i < cap. leds2 (for_loop cap s (bs @ [x])) ! i
          = (if 3 * (cap + i) + 2 < length (bs @ [x]) then triplet (bs @ [x]) (cap + i)
             else leds2 s ! i)"
    proof (intro allI impI)
      fix i assume i: "i < cap"
      have iff: "3 * (cap + i) + 2 < length (bs @ [x]) \<longleftrightarrow> 3 * (cap + i) + 2 < ?n"
        using nothird [of "cap + i"] by auto
      show "leds2 (for_loop cap s (bs @ [x])) ! i
          = (if 3 * (cap + i) + 2 < length (bs @ [x]) then triplet (bs @ [x]) (cap + i)
             else leds2 s ! i)"
        using s2 [OF i] iff by (simp add: same2 triplet_snoc)
    qed
    from a b c show ?thesis by blast
  qed
qed

text \<open>
  C4. Within a frame, the byte at offset \<open>ofs\<close> is processed when the byte counter is
  \<open>ofs\<close> and the staging buffer holds \<open>ofs mod 3\<close> bytes. The pixel position that the
  code computes when the third byte of its triplet has been stored is \<open>ofs div 3\<close>, the
  same as the counter would give before the first byte of the triplet. That position is
  routed to Strip 1 at the same index when it is below the strip length and to Strip 2
  at the index less the strip length otherwise, and once the triplet is complete the
  pixel there is the triplet. Pixels of triplets not yet complete keep their old value.
\<close>

theorem pixel_routing:
  assumes "totalBytesRead s = 0" and "ledIndex s = 0"
    and "length (leds1 s) = cap" and "length (leds2 s) = cap" and "length (ledBuffer s) = 3"
    and "length bs \<le> NUMBER_OF_BYTES_TO_READ cap"
    and "3 * (ofs div 3) + 2 < length bs"
  shows "totalBytesRead (for_loop cap s (take ofs bs)) = ofs
    \<and> ledIndex (for_loop cap s (take ofs bs)) = ofs mod 3
    \<and> ledIndex (store_byte (for_loop cap s (take (3 * (ofs div 3) + 2) bs))
                  (bs ! (3 * (ofs div 3) + 2))) = 3
    \<and> totalBytesRead (store_byte (for_loop cap s (take (3 * (ofs div 3) + 2) bs))
                  (bs ! (3 * (ofs div 3) + 2))) div 3 = ofs div 3
    \<and> totalBytesRead (for_loop cap s (take (3 * (ofs div 3)) bs)) div 3 = ofs div 3
    \<and> pixel_target cap (ofs div 3)
        = (if ofs div 3 < cap then Strip1 (ofs div 3) else Strip2 (ofs div 3 - cap))
    \<and> (ofs div 3 < cap \<longrightarrow> leds1 (for_loop cap s bs) ! (ofs div 3) = triplet bs (ofs div 3))
    \<and> (cap \<le> ofs div 3 \<longrightarrow>
          leds2 (for_loop cap s bs) ! (ofs div 3 - cap) = triplet bs (ofs div 3))
    \<and> (i < cap \<longrightarrow> leds1 (for_loop cap s bs) ! i
          = (if 3 * i + 2 < length bs then triplet bs i else leds1 s ! i))
    \<and> (i < cap \<longrightarrow> leds2 (for_loop cap s bs) ! i
          = (if 3 * (cap + i) + 2 < length bs then triplet bs (cap + i) else leds2 s ! i))"
proof -
  let ?k = "ofs div 3"
  have ofs: "ofs < length bs"
    using assms(7) by presburger
  have cnt: "\<And>m. m \<le> length bs \<Longrightarrow> totalBytesRead (for_loop cap s (take m bs)) = m"
    using assms(1) by (simp add: for_loop_fields)
  have idx: "\<And>m. m \<le> length bs \<Longrightarrow> ledIndex (for_loop cap s (take m bs)) = m mod 3"
  proof -
    fix m assume m: "m \<le> length bs"
    have "ledIndex (for_loop cap s (take m bs)) = totalBytesRead (for_loop cap s (take m bs)) mod 3"
      using assms(1,2) by (intro for_loop_ledIndex_mod) simp
    then show "ledIndex (for_loop cap s (take m bs)) = m mod 3"
      by (simp add: cnt [OF m])
  qed
  have c1: "totalBytesRead (for_loop cap s (take ofs bs)) = ofs"
    and c2: "ledIndex (for_loop cap s (take ofs bs)) = ofs mod 3"
    using ofs by (simp_all add: cnt idx)
  have third: "3 * ?k + 2 \<le> length bs" and first: "3 * ?k \<le> length bs"
    using assms(7) by simp_all
  have "(3 * ?k + 2) mod 3 = 2"
    by presburger
  then have "ledIndex (for_loop cap s (take (3 * ?k + 2) bs)) = 2"
    using idx [OF third] by (simp only:)
  then have c3: "ledIndex (store_byte (for_loop cap s (take (3 * ?k + 2) bs)) (bs ! (3 * ?k + 2))) = 3"
    by (simp only: store_byte_fields)
  have "(3 * ?k + 2) div 3 = ?k"
    by presburger
  then have c4: "totalBytesRead (store_byte (for_loop cap s (take (3 * ?k + 2) bs)) (bs ! (3 * ?k + 2)))
              div 3 = ?k"
    by (simp only: store_byte_fields cnt [OF third])
  have c5: "totalBytesRead (for_loop cap s (take (3 * ?k) bs)) div 3 = ?k"
    by (simp add: cnt [OF first])
  have "3 * ?k + 2 < 6 * cap"
    using assms(6,7) by (simp add: NUMBER_OF_BYTES_TO_READ_eq)
  then have k: "?k < 2 * cap"
    by simp
  have c6: "pixel_target cap ?k = (if ?k < cap then Strip1 ?k else Strip2 (?k - cap))"
    using k by (simp add: pixel_target_cases)
  note frame = for_loop_frame [OF assms(1-5), of bs, OF assms(6)]
  have s1: "\<And>i. i < cap \<Longrightarrow> leds1 (for_loop cap s bs) ! i
          = (if 3 * i + 2 < length bs then triplet bs i else leds1 s ! i)"
    using frame by blast
  have s2: "\<And>i. i < cap \<Longrightarrow> leds2 (for_loop cap s bs) ! i
          = (if 3 * (cap + i) + 2 < length bs then triplet bs (cap + i) else leds2 s ! i)"
    using frame by blast
  have c7: "?k < cap \<longrightarrow> leds1 (for_loop cap s bs) ! ?k = triplet bs ?k"
    using s1 [of ?k] assms(7) by simp
  have c8: "cap \<le> ?k \<longrightarrow> leds2 (for_loop cap s bs) ! (?k - cap) = triplet bs ?k"
  proof
    assume ge: "cap \<le> ?k"
    then have "?k - cap < cap" and "cap + (?k - cap) = ?k"
      using k by simp_all
    then show "leds2 (for_loop cap s bs) ! (?k - cap) = triplet bs ?k"
      using s2 [of "?k - cap"] assms(7) by simp
  qed
  from c1 c2 c3 c4 c5 c6 c7 c8 s1 [of i] s2 [of i] show ?thesis
    by blast
qed

theorem pixel_routing_witness:
  "totalBytesRead (setup_fw 2) = 0 \<and> ledIndex (setup_fw 2) = 0
   \<and> length (leds1 (setup_fw 2)) = 2 \<and> length (leds2 (setup_fw 2)) = 2
   \<and> length (ledBuffer (setup_fw 2)) = 3
   \<and> length frameA \<le> NUMBER_OF_BYTES_TO_READ 2
   \<and> 3 * (7 div 3) + 2 < length frameA
   \<and> totalBytesRead (for_loop 2 (setup_fw 2) (take 7 frameA)) = 7
   \<and> ledIndex (for_loop 2 (setup_fw 2) (take 7 frameA)) = 7 mod 3
   \<and> pixel_target 2 (7 div 3) = Strip2 (7 div 3 - 2)
   \<and> leds2 (for_loop 2 (setup_fw 2) frameA) ! (7 div 3 - 2) = triplet frameA (7 div 3)
   \<and> leds1 (for_loop 2 (setup_fw 2) (take 5 frameA)) ! 1 = leds1 (setup_fw 2) ! 1"
proof -
  have h: "totalBytesRead (setup_fw 2) = 0" "ledIndex (setup_fw 2) = 0"
    "length (leds1 (setup_fw 2)) = 2" "length (leds2 (setup_fw 2)) = 2"
    "length (ledBuffer (setup_fw 2)) = 3"
    by (simp_all add: setup_fw_fields)
  have f: "length frameA \<le> NUMBER_OF_BYTES_TO_READ 2"
    by code_simp
  have t: "3 * (7 div 3) + 2 < length frameA"
    by code_simp
  have f': "length (take 5 frameA) \<le> NUMBER_OF_BYTES_TO_READ 2"
    by code_simp
  have t': "3 * (0 div 3) + 2 < length (take 5 frameA)"
    by code_simp
  have g: "(2::nat) \<le> 7 div 3" "\<not> (7::nat) div 3 < 2" "(1::nat) < 2"
    "\<not> 3 * 1 + 2 < length (take 5 frameA)"
    by (simp_all add: frameA_def)
  from h f t g pixel_routing [OF h f t, of 0] pixel_routing [OF h f' t', of 1]
  show ?thesis
    by (simp del: One_nat_def)
qed

section \<open>The transport and the sequence of chunks\<close>

lemma poll_Nil: "poll cap q [] = q"
  by (simp add: poll_def)

lemma poll_snoc:
  "poll cap q (arrivals @ [a]) = while_iteration cap (fst (poll cap q arrivals), snd (poll cap q arrivals) @ a)"
  by (simp add: poll_def split_beta)

lemma while_iteration_empty: "while_iteration cap (s, []) = (s, [])"
  by (simp add: while_iteration_def)

lemma while_iteration_chunk:
  "rx \<noteq> [] \<Longrightarrow>
   while_iteration cap (s, rx)
     = (process_chunk cap s (take (min (length rx) DATA_BLOCK_SIZE) rx),
        drop (min (length rx) DATA_BLOCK_SIZE) rx)"
  by (simp add: while_iteration_def Let_def)

lemma concat_snoc_take_drop: "concat (cs @ [take n q]) @ drop n q = concat cs @ q"
  by simp

lemma read_block_valid:
  "q \<noteq> [] \<Longrightarrow>
   take (min (length q) DATA_BLOCK_SIZE) q \<noteq> []
   \<and> length (take (min (length q) DATA_BLOCK_SIZE) q) \<le> DATA_BLOCK_SIZE"
  by (simp add: DATA_BLOCK_SIZE_def)

text \<open>
  Whatever the arrival times, the decoder state is the result of a sequence of chunks,
  each with at least one and at most \<^verbatim>\<open>DATA_BLOCK_SIZE\<close> bytes, that carries the
  bytes taken from the receive queue so far, in their order.
\<close>

lemma poll_is_run:
  "\<exists>cs. fst (poll cap (s, rx) arrivals) = run cap s cs
      \<and> concat cs @ snd (poll cap (s, rx) arrivals) = rx @ concat arrivals
      \<and> (\<forall>c \<in> set cs. c \<noteq> [] \<and> length c \<le> DATA_BLOCK_SIZE)"
proof (induction arrivals rule: rev_induct)
  case Nil
  have "fst (poll cap (s, rx) []) = run cap s [] \<and> concat [] @ snd (poll cap (s, rx) []) = rx @ concat []
      \<and> (\<forall>c \<in> set []. c \<noteq> [] \<and> length c \<le> DATA_BLOCK_SIZE)"
    by (simp add: poll_Nil run_Nil)
  then show ?case by blast
next
  case (snoc a arrivals)
  let ?p = "poll cap (s, rx) arrivals"
  let ?q = "snd ?p @ a"
  from snoc.IH obtain cs where
    st: "fst ?p = run cap s cs" and
    bytes: "concat cs @ snd ?p = rx @ concat arrivals" and
    ok: "\<forall>c \<in> set cs. c \<noteq> [] \<and> length c \<le> DATA_BLOCK_SIZE"
    by blast
  show ?case
  proof (cases "?q = []")
    case True
    then have "poll cap (s, rx) (arrivals @ [a]) = (fst ?p, [])"
      by (simp add: poll_snoc while_iteration_empty)
    moreover have "snd ?p = []" "a = []"
      using True by simp_all
    ultimately have "fst (poll cap (s, rx) (arrivals @ [a])) = run cap s cs
      \<and> concat cs @ snd (poll cap (s, rx) (arrivals @ [a])) = rx @ concat (arrivals @ [a])
      \<and> (\<forall>c \<in> set cs. c \<noteq> [] \<and> length c \<le> DATA_BLOCK_SIZE)"
      using st bytes ok by simp
    then show ?thesis by blast
  next
    case False
    define ch where "ch = take (min (length ?q) DATA_BLOCK_SIZE) ?q"
    define rest where "rest = drop (min (length ?q) DATA_BLOCK_SIZE) ?q"
    have "while_iteration cap (fst ?p, ?q) = (process_chunk cap (fst ?p) ch, rest)"
      unfolding ch_def rest_def by (rule while_iteration_chunk [OF False])
    then have step: "poll cap (s, rx) (arrivals @ [a]) = (process_chunk cap (fst ?p) ch, rest)"
      by (simp only: poll_snoc)
    have pos: "ch \<noteq> [] \<and> length ch \<le> DATA_BLOCK_SIZE"
      unfolding ch_def using False by (rule read_block_valid)
    have "concat (cs @ [ch]) @ rest = concat cs @ ?q"
      unfolding ch_def rest_def by (rule concat_snoc_take_drop)
    also have "\<dots> = (concat cs @ snd ?p) @ a"
      by simp
    also have "\<dots> = rx @ concat (arrivals @ [a])"
      by (simp only: bytes) simp
    finally have all: "concat (cs @ [ch]) @ rest = rx @ concat (arrivals @ [a])" .
    have valid: "\<forall>c \<in> set (cs @ [ch]). c \<noteq> [] \<and> length c \<le> DATA_BLOCK_SIZE"
      using ok pos by simp
    have "fst (poll cap (s, rx) (arrivals @ [a])) = run cap s (cs @ [ch])"
      by (simp only: step fst_conv run_snoc st)
    moreover have "concat (cs @ [ch]) @ snd (poll cap (s, rx) (arrivals @ [a]))
          = rx @ concat (arrivals @ [a])"
      by (simp only: step snd_conv all)
    ultimately show ?thesis
      using valid by blast
  qed
qed

text \<open>Conversely, every such sequence of chunks is what some arrival times produce.\<close>

lemma run_is_poll:
  "\<forall>c \<in> set cs. c \<noteq> [] \<and> length c \<le> DATA_BLOCK_SIZE \<Longrightarrow>
   poll cap (s, []) cs = (run cap s cs, [])"
proof (induction cs rule: rev_induct)
  case Nil
  then show ?case by (simp add: poll_Nil run_Nil)
next
  case (snoc c cs)
  then have "poll cap (s, []) cs = (run cap s cs, [])" and "c \<noteq> []"
    and "min (length c) DATA_BLOCK_SIZE = length c"
    by simp_all
  then show ?case
    by (simp add: poll_snoc while_iteration_chunk run_snoc)
qed

section \<open>The configuration of the source\<close>

text \<open>
  A frame of the source has 900 bytes, which is not a multiple of the 64 bytes of a full
  read. When the host does not wait and every read is full, the fifteenth read holds the
  last 4 bytes of the frame and 60 bytes beyond it; after it the counter is 0 again,
  although 960 bytes have been consumed.
\<close>

lemma run_full_blocks:
  "length c = DATA_BLOCK_SIZE \<Longrightarrow> k * DATA_BLOCK_SIZE < NUMBER_OF_BYTES_TO_READ cap \<Longrightarrow>
   totalBytesRead (run cap (setup_fw cap) (replicate k c)) = k * DATA_BLOCK_SIZE
   \<and> displays (trace (run cap (setup_fw cap) (replicate k c))) = 0"
proof (induction k)
  case 0
  then show ?case by (simp add: run_Nil setup_fw_fields)
next
  case (Suc k)
  then have "totalBytesRead (run cap (setup_fw cap) (replicate k c)) = k * DATA_BLOCK_SIZE
      \<and> displays (trace (run cap (setup_fw cap) (replicate k c))) = 0"
    by simp
  moreover have "replicate (Suc k) c = replicate k c @ [c]"
    by (simp add: replicate_append_same)
  ultimately show ?case
    using Suc.prems
    by (simp add: run_snoc process_chunk_fields(4) process_chunk_displays del: replicate_Suc)
qed

lemma source_config_straddle:
  assumes "length c = DATA_BLOCK_SIZE"
  shows "totalBytesRead (for_loop LED_COUNT_PER_STRIP
            (run LED_COUNT_PER_STRIP (setup_fw LED_COUNT_PER_STRIP) (replicate 14 c)) c) = 960
    \<and> NUMBER_OF_BYTES_TO_READ LED_COUNT_PER_STRIP = 900
    \<and> totalBytesRead (run LED_COUNT_PER_STRIP (setup_fw LED_COUNT_PER_STRIP) (replicate 15 c)) = 0
    \<and> displays (trace (run LED_COUNT_PER_STRIP (setup_fw LED_COUNT_PER_STRIP) (replicate 15 c))) = 1"
proof -
  let ?r = "run LED_COUNT_PER_STRIP (setup_fw LED_COUNT_PER_STRIP) (replicate 14 c)"
  have F: "NUMBER_OF_BYTES_TO_READ LED_COUNT_PER_STRIP = 900"
    by (simp add: NUMBER_OF_BYTES_TO_READ_eq LED_COUNT_PER_STRIP_def)
  have "14 * DATA_BLOCK_SIZE < NUMBER_OF_BYTES_TO_READ LED_COUNT_PER_STRIP"
    by (simp add: F DATA_BLOCK_SIZE_def)
  from run_full_blocks [OF assms this]
  have r: "totalBytesRead ?r = 896" "displays (trace ?r) = 0"
    by (simp_all add: DATA_BLOCK_SIZE_def)
  have "replicate (Suc 14) c = replicate 14 c @ [c]"
    by (simp only: replicate_Suc replicate_append_same)
  moreover have "Suc 14 = 15"
    by simp
  ultimately have "replicate 15 c = replicate 14 c @ [c]"
    by (simp only:)
  then have "run LED_COUNT_PER_STRIP (setup_fw LED_COUNT_PER_STRIP) (replicate 15 c)
      = process_chunk LED_COUNT_PER_STRIP ?r c"
    by (simp only: run_snoc)
  then show ?thesis
    using r assms F
    by (simp add: for_loop_fields process_chunk_fields(4) process_chunk_displays DATA_BLOCK_SIZE_def)
qed

lemma run_within:
  "totalBytesRead s + length (concat cs) < NUMBER_OF_BYTES_TO_READ cap \<Longrightarrow>
   run cap s cs = for_loop cap s (concat cs)"
proof (induction cs arbitrary: s)
  case Nil
  then show ?case by (simp add: run_Nil for_loop_Nil)
next
  case (Cons c cs)
  have first: "process_chunk cap s c = for_loop cap s c"
    using Cons.prems by (intro process_chunk_within) simp
  have "totalBytesRead (for_loop cap s c) + length (concat cs) < NUMBER_OF_BYTES_TO_READ cap"
    using Cons.prems by (simp add: for_loop_fields)
  then have "run cap (for_loop cap s c) cs = for_loop cap (for_loop cap s c) (concat cs)"
    by (rule Cons.IH)
  then show ?case
    by (simp add: run_Cons first for_loop_append)
qed

lemma concat_replicate_replicate:
  "concat (replicate k (replicate m x)) = replicate (k * m) x"
  by (induction k) (simp_all add: replicate_add)

lemma source_frame_length: "NUMBER_OF_BYTES_TO_READ LED_COUNT_PER_STRIP = 900"
  by (simp add: NUMBER_OF_BYTES_TO_READ_eq LED_COUNT_PER_STRIP_def)

lemma blocks_two_frames_concat:
  "concat blocks_two_frames = replicate 900 0 @ replicate 900 1"
proof -
  have "concat blocks_two_frames
      = (replicate 896 0 @ replicate 4 0) @ (replicate 60 1 @ replicate 832 1 @ replicate 8 (1::byte))"
    by (simp add: blocks_two_frames_def concat_replicate_replicate)
  also have "\<dots> = replicate (896 + 4) 0 @ replicate (60 + (832 + 8)) (1::byte)"
    by (simp only: replicate_add)
  finally show ?thesis by simp
qed

lemma aligned_two_frames_concat:
  "concat aligned_two_frames = replicate 900 0 @ replicate 900 1"
  by (simp add: aligned_two_frames_def concat_replicate_replicate)


lemma frame_start_after_gate:
  assumes "NUMBER_OF_BYTES_TO_READ cap \<le> totalBytesRead s + length c"
  shows "totalBytesRead (process_chunk cap s c) = 0" "ledIndex (process_chunk cap s c) = 0"
    "displays (trace (process_chunk cap s c)) = Suc (displays (trace s))"
  using assms by (simp_all add: process_chunk_fields(4) process_chunk_ledIndex process_chunk_displays)

text \<open>Read in full blocks, the second frame is shifted by the 60 bytes lost at the reset:
  one display call instead of two, and the last pixel of Strip 2 is still that of the
  first frame.\<close>

lemma source_config_blocks:
  "displays (trace (run LED_COUNT_PER_STRIP (setup_fw LED_COUNT_PER_STRIP) blocks_two_frames)) = 1
   \<and> leds2 (run LED_COUNT_PER_STRIP (setup_fw LED_COUNT_PER_STRIP) blocks_two_frames) ! 149
       = CRGB 0 0 0"
proof -
  let ?L = "LED_COUNT_PER_STRIP"
  let ?s0 = "setup_fw ?L"
  let ?c15 = "replicate 4 0 @ replicate 60 (1::byte)"
  let ?B1 = "replicate 14 (replicate 64 (0::byte))"
  let ?B2 = "replicate 13 (replicate 64 (1::byte)) @ [replicate 8 1]"
  let ?r1 = "run ?L ?s0 ?B1"
  let ?s2 = "process_chunk ?L ?r1 ?c15"
  have L: "?L = 150"
    by (simp add: LED_COUNT_PER_STRIP_def)
  have B1: "concat ?B1 = replicate 896 0"
    by (simp add: concat_replicate_replicate)
  have B2: "concat ?B2 = replicate 840 1"
    by (simp add: concat_replicate_replicate replicate_add [symmetric])
  have r1: "?r1 = for_loop ?L ?s0 (replicate 896 0)"
    using run_within [of ?s0 ?B1 ?L]
    by (simp only: B1) (simp add: setup_fw_fields source_frame_length)
  have r1_total: "totalBytesRead ?r1 = 896" and r1_trace: "displays (trace ?r1) = 0"
    by (simp_all add: r1 for_loop_fields setup_fw_fields)
  have fire: "NUMBER_OF_BYTES_TO_READ ?L \<le> totalBytesRead ?r1 + length ?c15"
    by (simp add: r1_total source_frame_length)
  note s2 = frame_start_after_gate [OF fire]
  have full: "NUMBER_OF_BYTES_TO_READ ?L \<le> totalBytesRead (for_loop ?L ?r1 (replicate 4 0))"
    by (simp add: for_loop_fields r1_total source_frame_length)
  have "leds2 ?s2 = leds2 (for_loop ?L (for_loop ?L ?r1 (replicate 4 0)) (replicate 60 1))"
    by (simp add: process_chunk_fields for_loop_append)
  also have "\<dots> = leds2 (for_loop ?L ?r1 (replicate 4 0))"
    using for_loop_surplus [OF full] by simp
  also have "\<dots> = leds2 (for_loop ?L ?s0 (replicate 896 0 @ replicate 4 0))"
    by (simp only: r1 for_loop_append)
  also have "replicate 896 0 @ replicate 4 0 = replicate 900 (0::byte)"
    by (simp add: replicate_add [symmetric])
  finally have s2_leds2: "leds2 ?s2 = leds2 (for_loop ?L ?s0 (replicate 900 0))" .
  have "length (replicate 900 (0::byte)) \<le> NUMBER_OF_BYTES_TO_READ ?L"
    by (simp add: source_frame_length)
  from for_loop_frame [where bs = "replicate 900 0", OF setup_fw_fields(1-5) this]
  have "\<forall>i < ?L. leds2 (for_loop ?L ?s0 (replicate 900 0)) ! i
          = (if 3 * (?L + i) + 2 < length (replicate 900 (0::byte))
             then triplet (replicate 900 0) (?L + i) else leds2 ?s0 ! i)"
    by blast
  moreover have i: "149 < ?L"
    by (simp add: L)
  ultimately have "leds2 (for_loop ?L ?s0 (replicate 900 0)) ! 149
          = (if 3 * (?L + 149) + 2 < length (replicate 900 (0::byte))
             then triplet (replicate 900 0) (?L + 149) else leds2 ?s0 ! 149)"
    by blast
  moreover have "3 * (?L + 149) + 2 < length (replicate 900 (0::byte))"
    by (simp add: L)
  moreover have "triplet (replicate 900 0) (?L + 149) = CRGB 0 0 0"
    by (simp add: L triplet_def)
  ultimately have "leds2 (for_loop ?L ?s0 (replicate 900 0)) ! 149 = CRGB 0 0 0"
    by (simp only: if_True)
  then have first: "leds2 ?s2 ! 149 = CRGB 0 0 0"
    by (simp only: s2_leds2)
  have len: "length (leds1 ?s2) = ?L" "length (leds2 ?s2) = ?L" "length (ledBuffer ?s2) = 3"
    by (simp_all add: process_chunk_length run_length setup_fw_fields)
  have r3: "run ?L ?s2 ?B2 = for_loop ?L ?s2 (replicate 840 1)"
    using run_within [of ?s2 ?B2 ?L]
    by (simp only: B2) (simp add: s2 source_frame_length)
  have "length (replicate 840 (1::byte)) \<le> NUMBER_OF_BYTES_TO_READ ?L"
    by (simp add: source_frame_length)
  from for_loop_frame [where bs = "replicate 840 1", OF s2(1,2) len this]
  have "\<forall>i < ?L. leds2 (for_loop ?L ?s2 (replicate 840 1)) ! i
          = (if 3 * (?L + i) + 2 < length (replicate 840 (1::byte))
             then triplet (replicate 840 1) (?L + i) else leds2 ?s2 ! i)"
    by blast
  with i have "leds2 (for_loop ?L ?s2 (replicate 840 1)) ! 149
          = (if 3 * (?L + 149) + 2 < length (replicate 840 (1::byte))
             then triplet (replicate 840 1) (?L + 149) else leds2 ?s2 ! 149)"
    by blast
  moreover have "\<not> 3 * (?L + 149) + 2 < length (replicate 840 (1::byte))"
    by (simp add: L)
  ultimately have "leds2 (for_loop ?L ?s2 (replicate 840 1)) ! 149 = leds2 ?s2 ! 149"
    by (simp only: if_False)
  then have second: "leds2 (run ?L ?s2 ?B2) ! 149 = CRGB 0 0 0"
    by (simp only: r3 first)
  have shown: "displays (trace (run ?L ?s2 ?B2)) = 1"
    by (simp add: r3 for_loop_fields s2(3) r1_trace)
  have "run ?L ?s0 blocks_two_frames = run ?L ?s2 ?B2"
    by (simp add: blocks_two_frames_def run_append run_Cons run_Nil)
  with second shown show ?thesis
    by (simp only:)
qed


text \<open>Read in blocks of 60 bytes, which end with the frames, both frames are shown and
  the last pixel of Strip 2 is that of the second frame.\<close>

lemma source_config_aligned:
  "displays (trace (run LED_COUNT_PER_STRIP (setup_fw LED_COUNT_PER_STRIP) aligned_two_frames)) = 2
   \<and> leds2 (run LED_COUNT_PER_STRIP (setup_fw LED_COUNT_PER_STRIP) aligned_two_frames) ! 149
       = CRGB 1 1 1"
proof -
  let ?L = "LED_COUNT_PER_STRIP"
  let ?F = "NUMBER_OF_BYTES_TO_READ ?L"
  let ?s0 = "setup_fw ?L"
  let ?f1 = "replicate 900 (0::byte)"
  let ?f2 = "replicate 900 (1::byte)"
  let ?s1 = "process_chunk ?L ?s0 ?f1"
  let ?s2 = "process_chunk ?L ?s1 ?f2"
  have L: "?L = 150"
    by (simp add: LED_COUNT_PER_STRIP_def)
  have "frame_aligned 900 0 aligned_two_frames"
    by (simp add: aligned_two_frames_def eval_nat_numeral)
  then have al: "frame_aligned ?F (totalBytesRead ?s0) aligned_two_frames"
    by (simp only: source_frame_length setup_fw_fields)
  have "frame_aligned 900 0 [?f1, ?f2]"
    by simp
  then have al': "frame_aligned ?F (totalBytesRead ?s0) [?f1, ?f2]"
    by (simp only: source_frame_length setup_fw_fields)
  have "concat aligned_two_frames = concat [?f1, ?f2]"
    by (simp add: aligned_two_frames_concat)
  then have "run ?L ?s0 aligned_two_frames = run ?L ?s0 [?f1, ?f2]"
    using run_aligned_bytewise [OF al] run_aligned_bytewise [OF al'] by (simp only:)
  then have whole: "run ?L ?s0 aligned_two_frames = ?s2"
    by (simp only: run_Cons run_Nil)
  have fire1: "?F \<le> totalBytesRead ?s0 + length ?f1"
    by (simp add: source_frame_length setup_fw_fields)
  note s1 = frame_start_after_gate [OF fire1]
  have fire2: "?F \<le> totalBytesRead ?s1 + length ?f2"
    by (simp add: source_frame_length s1)
  note s2 = frame_start_after_gate [OF fire2]
  have shown: "displays (trace ?s2) = 2"
    by (simp add: s2 s1 setup_fw_fields)
  have len: "length (leds1 ?s1) = ?L" "length (leds2 ?s1) = ?L" "length (ledBuffer ?s1) = 3"
    by (simp_all add: process_chunk_length setup_fw_fields)
  have "length ?f2 \<le> ?F"
    by (simp add: source_frame_length)
  from for_loop_frame [where bs = ?f2, OF s1(1,2) len this]
  have "\<forall>i < ?L. leds2 (for_loop ?L ?s1 ?f2) ! i
          = (if 3 * (?L + i) + 2 < length ?f2 then triplet ?f2 (?L + i) else leds2 ?s1 ! i)"
    by blast
  moreover have "149 < ?L"
    by (simp add: L)
  ultimately have "leds2 (for_loop ?L ?s1 ?f2) ! 149
          = (if 3 * (?L + 149) + 2 < length ?f2 then triplet ?f2 (?L + 149) else leds2 ?s1 ! 149)"
    by blast
  moreover have "3 * (?L + 149) + 2 < length ?f2"
    by (simp add: L)
  moreover have "triplet ?f2 (?L + 149) = CRGB 1 1 1"
    by (simp add: L triplet_def)
  ultimately have "leds2 (for_loop ?L ?s1 ?f2) ! 149 = CRGB 1 1 1"
    by (simp only: if_True)
  then have "leds2 ?s2 ! 149 = CRGB 1 1 1"
    by (simp only: process_chunk_fields)
  with shown show ?thesis
    by (simp only: whole)
qed

text \<open>
  Both sequences of chunks carry the same 1800 bytes, two frames, in chunks that a read
  can deliver; they end in different strips and different numbers of display calls.
\<close>

lemma source_config_chunk_dependence:
  "concat blocks_two_frames = concat aligned_two_frames
   \<and> length (concat blocks_two_frames) = 2 * NUMBER_OF_BYTES_TO_READ LED_COUNT_PER_STRIP
   \<and> (\<forall>c \<in> set blocks_two_frames \<union> set aligned_two_frames.
         c \<noteq> [] \<and> length c \<le> DATA_BLOCK_SIZE)
   \<and> leds2 (run LED_COUNT_PER_STRIP (setup_fw LED_COUNT_PER_STRIP) blocks_two_frames) ! 149
       \<noteq> leds2 (run LED_COUNT_PER_STRIP (setup_fw LED_COUNT_PER_STRIP) aligned_two_frames) ! 149
   \<and> displays (trace (run LED_COUNT_PER_STRIP (setup_fw LED_COUNT_PER_STRIP) blocks_two_frames))
       \<noteq> displays (trace (run LED_COUNT_PER_STRIP (setup_fw LED_COUNT_PER_STRIP) aligned_two_frames))"
proof -
  have "concat blocks_two_frames = concat aligned_two_frames"
    by (simp only: blocks_two_frames_concat aligned_two_frames_concat)
  moreover have "length (concat blocks_two_frames) = 2 * NUMBER_OF_BYTES_TO_READ LED_COUNT_PER_STRIP"
    by (simp add: blocks_two_frames_concat source_frame_length)
  moreover have "\<forall>c \<in> set blocks_two_frames \<union> set aligned_two_frames.
         c \<noteq> [] \<and> length c \<le> DATA_BLOCK_SIZE"
    by (auto simp add: blocks_two_frames_def aligned_two_frames_def DATA_BLOCK_SIZE_def)
  moreover have "leds2 (run LED_COUNT_PER_STRIP (setup_fw LED_COUNT_PER_STRIP) blocks_two_frames) ! 149
       \<noteq> leds2 (run LED_COUNT_PER_STRIP (setup_fw LED_COUNT_PER_STRIP) aligned_two_frames) ! 149"
    using source_config_blocks source_config_aligned by simp
  moreover have "displays (trace (run LED_COUNT_PER_STRIP (setup_fw LED_COUNT_PER_STRIP) blocks_two_frames))
       \<noteq> displays (trace (run LED_COUNT_PER_STRIP (setup_fw LED_COUNT_PER_STRIP) aligned_two_frames))"
    using source_config_blocks source_config_aligned by simp
  ultimately show ?thesis
    by blast
qed

end
